theory Spec2Isabelle
  imports Main
begin

section \<open>Comparators\<close>

text \<open>
  A comparator is a JavaScript function \<open>(a, b) => number\<close>; only the sign of the number is
  ever inspected, so the result is modelled as an \<open>int\<close>.
\<close>

type_synonym 'k comparator = "'k \<Rightarrow> 'k \<Rightarrow> int"

text \<open>Modelled from the spec: \<open>cmpLT\<close> of the module \<open>sorting\<close> (imported by
  SortedMap.ts, its source is not part of the repository excerpt): the comparison result
  means "less".\<close>

definition cmpLT :: "int \<Rightarrow> bool" where
  "cmpLT c = (c < 0)"

text \<open>Modelled from the spec: \<open>cmpGT\<close> of the module \<open>sorting\<close>: the comparison result
  means "greater".\<close>

definition cmpGT :: "int \<Rightarrow> bool" where
  "cmpGT c = (0 < c)"

text \<open>Modelled from the spec: \<open>cmpLE\<close> of the module \<open>sorting\<close>: "less or equal".\<close>

definition cmpLE :: "int \<Rightarrow> bool" where
  "cmpLE c = (c \<le> 0)"

text \<open>Modelled from the spec: \<open>cmpGE\<close> of the module \<open>sorting\<close>: "greater or equal".\<close>

definition cmpGE :: "int \<Rightarrow> bool" where
  "cmpGE c = (0 \<le> c)"

text \<open>Modelled from the spec: \<open>cmpNQ\<close> of the module \<open>sorting\<close>: "not equal".\<close>

definition cmpNQ :: "int \<Rightarrow> bool" where
  "cmpNQ c = (c \<noteq> 0)"

text \<open>Modelled from the spec: \<open>reverseComparator\<close> of the module \<open>sorting\<close>: the comparator
  composed with order reversal.\<close>

definition reverseComparator :: "'k comparator \<Rightarrow> 'k comparator" where
  "reverseComparator cmp = (\<lambda>a b. cmp b a)"

text \<open>Modelled from the spec: \<open>autoComparator\<close> of the module \<open>sorting\<close>, the default order:
  the natural ordering of comparable keys.\<close>

fun autoComparator :: "'k::linorder comparator" where
  "autoComparator a b = (if a < b then - 1 else if b < a then 1 else 0)"

text \<open>Modelled from the spec: \<open>returns\<close> of the module \<open>functional/functions\<close>: the constant
  function; \<open>returns(true)\<close> is the default deletion condition.\<close>

definition returns :: "'a \<Rightarrow> 'b \<Rightarrow> 'a" where
  "returns x = (\<lambda>_. x)"

text \<open>
  The data model of the specification asks the comparator to be an order on the keys: the two
  argument orders agree, and "less or equal" is transitive. Distinct keys may compare equal.
\<close>

definition total_order :: "'k comparator \<Rightarrow> bool" where
  "total_order cmp \<longleftrightarrow>
     (\<forall>a b. (cmp a b < 0) = (0 < cmp b a)) \<and>
     (\<forall>a b c. cmp a b \<le> 0 \<longrightarrow> cmp b c \<le> 0 \<longrightarrow> cmp a c \<le> 0)"

section \<open>Nodes\<close>

text \<open>
  Errors are values. The only exception the class can raise by itself is the \<open>TypeError\<close> of
  reading a property of \<open>undefined\<close> (a rotation without the child it needs, a non-null
  assertion \<open>!\<close> on an absent node).
\<close>

datatype error = TypeError

text \<open>
  The own fields of a \<open>Node\<close> object. \<open>nid\<close> is the identity of the object (JavaScript
  compares objects by reference); \<open>sortedMap\<close> is the back link to the owning map, held as the
  identity of that map, \<open>None\<close> once deleted by \<open>emancipate\<close>. A reference to a node (an
  entry handle) is modelled by the node's own fields, its links are found in the tree.
  \<open>val\<close> is the field \<open>value\<close>.
\<close>

record ('k, 'v) cell =
  nid :: nat
  key :: 'k
  val :: 'v
  sortedMap :: "nat option"
  depth :: int
  nodeCount :: int
  balanceFactor :: int

text \<open>
  \<open>Node<K, V> | undefined\<close>: every node is owned by exactly one parent (or by the map), so the
  links \<open>left\<close> and \<open>right\<close> form a tree.
\<close>

datatype ('k, 'v) node = Undefined | Node "('k, 'v) node" "('k, 'v) cell" "('k, 'v) node"

text \<open>\<open>node?.depth ?? 0\<close> and \<open>node?.nodeCount ?? 0\<close>.\<close>

fun depth_of :: "('k, 'v) node \<Rightarrow> int" where
  "depth_of Undefined = 0"
| "depth_of (Node l c r) = depth c"

fun nodeCount_of :: "('k, 'v) node \<Rightarrow> int" where
  "nodeCount_of Undefined = 0"
| "nodeCount_of (Node l c r) = nodeCount c"

definition calcDepth :: "('k, 'v) node \<Rightarrow> ('k, 'v) node \<Rightarrow> int" where
  "calcDepth l r = max (depth_of l) (depth_of r) + 1"

definition calcNodeCount :: "('k, 'v) node \<Rightarrow> ('k, 'v) node \<Rightarrow> int" where
  "calcNodeCount l r = nodeCount_of l + nodeCount_of r + 1"

definition calcBalanceFactor :: "('k, 'v) node \<Rightarrow> ('k, 'v) node \<Rightarrow> int" where
  "calcBalanceFactor l r = depth_of r - depth_of l"

text \<open>The constructor, with the identity \<open>i\<close> of the new object and the owner \<open>this\<close>.\<close>

definition Node_new ::
  "nat \<Rightarrow> 'k \<Rightarrow> 'v \<Rightarrow> nat \<Rightarrow> ('k, 'v) node \<Rightarrow> ('k, 'v) node \<Rightarrow> ('k, 'v) node" where
  "Node_new i k v this l r =
     Node l \<lparr>nid = i, key = k, val = v, sortedMap = Some this,
             depth = calcDepth l r, nodeCount = calcNodeCount l r,
             balanceFactor = calcBalanceFactor l r\<rparr> r"

text \<open>\<open>update()\<close> on the node with the links \<open>l\<close>, \<open>r\<close> and the own fields \<open>c\<close>: the cached
  values are recomputed from the cached values of the two children.\<close>

definition refresh :: "('k, 'v) node \<Rightarrow> ('k, 'v) cell \<Rightarrow> ('k, 'v) node \<Rightarrow> ('k, 'v) cell" where
  "refresh l c r = c\<lparr>depth := calcDepth l r, nodeCount := calcNodeCount l r,
                      balanceFactor := calcBalanceFactor l r\<rparr>"

definition update :: "('k, 'v) node \<Rightarrow> ('k, 'v) cell \<Rightarrow> ('k, 'v) node \<Rightarrow> ('k, 'v) node" where
  "update l c r = Node l (refresh l c r) r"

text \<open>
  \<open>rotateLeft\<close>: \<open>right.update()\<close> runs first, while \<open>this\<close> (now the left child of
  \<open>right\<close>) still carries the cached values it had before the rotation; \<open>this.update()\<close>
  runs second. Without a right child, \<open>right!.left\<close> raises.
\<close>

fun rotateLeft :: "('k, 'v) node \<Rightarrow> error + ('k, 'v) node" where
  "rotateLeft (Node l c (Node rl rc rr)) =
     Inr (Node (update l c rl) (refresh (Node l c rl) rc rr) rr)"
| "rotateLeft _ = Inl TypeError"

fun rotateRight :: "('k, 'v) node \<Rightarrow> error + ('k, 'v) node" where
  "rotateRight (Node (Node ll lc lr) c r) =
     Inr (Node ll (refresh ll lc (Node lr c r)) (update lr c r))"
| "rotateRight _ = Inl TypeError"

text \<open>\<open>balance()\<close>; on an absent receiver (\<open>successor?.balance()\<close>) the result is absent.\<close>

fun balance :: "('k, 'v) node \<Rightarrow> error + ('k, 'v) node" where
  "balance Undefined = Inr Undefined"
| "balance (Node l c r) =
     (if balanceFactor c < - 1 then rotateRight (Node l c r)
      else if balanceFactor c > 1 then rotateLeft (Node l c r)
      else Inr (Node l c r))"

text \<open>\<open>emancipate()\<close>: the owner is deleted; the cached values stay. (\<open>delete this.left\<close>
  and \<open>delete this.right\<close> name the accessors, not the fields behind them; the links of the
  removed object are no part of a cell, and nothing reads them again.)\<close>

definition emancipate :: "('k, 'v) cell \<Rightarrow> ('k, 'v) cell" where
  "emancipate c = c\<lparr>sortedMap := None\<rparr>"

section \<open>The map\<close>

text \<open>
  \<open>mid\<close> is the identity of the map object, \<open>fresh\<close> the next unused node identity (every
  \<open>new Node\<close> takes one).
\<close>

record ('k, 'v) sortedmap =
  mid :: nat
  root :: "('k, 'v) node"
  comparator :: "'k comparator"
  fresh :: nat

definition SortedMap_new :: "nat \<Rightarrow> 'k comparator \<Rightarrow> ('k, 'v) sortedmap" where
  "SortedMap_new i order = \<lparr>mid = i, root = Undefined, comparator = order, fresh = 0\<rparr>"

definition size_map :: "('k, 'v) sortedmap \<Rightarrow> int" where
  "size_map m = nodeCount_of (root m)"

subsection \<open>Traversal\<close>

text \<open>\<open>_iterator\<close> and \<open>_iteratorReversed\<close>: the sequence a generator yields is a list.\<close>

fun iterator :: "('k, 'v) node \<Rightarrow> ('k, 'v) cell list" where
  "iterator Undefined = []"
| "iterator (Node l c r) = iterator l @ c # iterator r"

fun iteratorReversed :: "('k, 'v) node \<Rightarrow> ('k, 'v) cell list" where
  "iteratorReversed Undefined = []"
| "iteratorReversed (Node l c r) = iteratorReversed r @ c # iteratorReversed l"

definition reversed :: "('k, 'v) sortedmap \<Rightarrow> ('k, 'v) cell list" where
  "reversed m = iteratorReversed (root m)"

definition keys :: "('k, 'v) sortedmap \<Rightarrow> 'k list" where
  "keys m = map key (iterator (root m))"

definition values_of :: "('k, 'v) sortedmap \<Rightarrow> 'v list" where
  "values_of m = map val (iterator (root m))"

definition entries :: "('k, 'v) sortedmap \<Rightarrow> ('k \<times> 'v) list" where
  "entries m = map (\<lambda>e. (key e, val e)) (iterator (root m))"

subsection \<open>Lookup\<close>

text \<open>\<open>getNode\<close>: the loop over \<open>current\<close>.\<close>

fun getNode_loop :: "'k comparator \<Rightarrow> 'k \<Rightarrow> ('k, 'v) node \<Rightarrow> ('k, 'v) cell option" where
  "getNode_loop cmp k Undefined = None"
| "getNode_loop cmp k (Node l c r) =
     (let c' = cmp k (key c) in
      if cmpLT c' then getNode_loop cmp k l
      else if cmpGT c' then getNode_loop cmp k r
      else Some c)"

definition getNode :: "('k, 'v) sortedmap \<Rightarrow> 'k \<Rightarrow> ('k, 'v) cell option" where
  "getNode m k = getNode_loop (comparator m) k (root m)"

definition getEntry :: "('k, 'v) sortedmap \<Rightarrow> 'k \<Rightarrow> ('k, 'v) cell option" where
  "getEntry m k = getNode m k"

text \<open>
  \<open>get\<close> returns \<open>V | undefined\<close>. A JavaScript value that may be \<open>undefined\<close> is an
  \<open>option\<close>, \<open>None\<close> being \<open>undefined\<close>; \<open>?.value\<close> on an absent entry is \<open>undefined\<close>
  again, not a second level of option.
\<close>

definition get :: "('k, 'v option) sortedmap \<Rightarrow> 'k \<Rightarrow> 'v option" where
  "get m k = (case getEntry m k of None \<Rightarrow> None | Some e \<Rightarrow> val e)"

fun getLargestNode_loop :: "('k, 'v) node \<Rightarrow> ('k, 'v) cell option" where
  "getLargestNode_loop Undefined = None"
| "getLargestNode_loop (Node l c r) =
     (if r \<noteq> Undefined then getLargestNode_loop r else Some c)"

fun getSmallestNode_loop :: "('k, 'v) node \<Rightarrow> ('k, 'v) cell option" where
  "getSmallestNode_loop Undefined = None"
| "getSmallestNode_loop (Node l c r) =
     (if l \<noteq> Undefined then getSmallestNode_loop l else Some c)"

definition getLargestEntry :: "('k, 'v) sortedmap \<Rightarrow> ('k, 'v) cell option" where
  "getLargestEntry m = getLargestNode_loop (root m)"

definition getSmallestEntry :: "('k, 'v) sortedmap \<Rightarrow> ('k, 'v) cell option" where
  "getSmallestEntry m = getSmallestNode_loop (root m)"

text \<open>Dereferencing a node reference held by a caller, and writing through one.\<close>

fun deref :: "nat \<Rightarrow> ('k, 'v) node \<Rightarrow> ('k, 'v) cell option" where
  "deref h Undefined = None"
| "deref h (Node l c r) =
     (if nid c = h then Some c
      else case deref h l of Some e \<Rightarrow> Some e | None \<Rightarrow> deref h r)"

fun modify :: "nat \<Rightarrow> (('k, 'v) cell \<Rightarrow> ('k, 'v) cell) \<Rightarrow> ('k, 'v) node \<Rightarrow> ('k, 'v) node" where
  "modify h f Undefined = Undefined"
| "modify h f (Node l c r) = Node (modify h f l) (if nid c = h then f c else c) (modify h f r)"

subsection \<open>Insertion\<close>

text \<open>
  \<open>_getNodeOrCompute\<close>. The thunk \<open>compute\<close> may have effects of its own: it is a function
  on a state \<open>'s\<close> of the caller, threaded through the call, so that how often it ran can be
  read off the result. The callback \<open>getNode\<close> stores a reference: the identity of the node
  is returned. The counter of node identities is threaded too.
\<close>

fun getNodeOrCompute_rec ::
  "nat \<Rightarrow> 'k comparator \<Rightarrow> ('k, 'v) node \<Rightarrow> 'k \<Rightarrow> ('s \<Rightarrow> 'v \<times> 's) \<Rightarrow> nat \<Rightarrow> 's
   \<Rightarrow> error + (('k, 'v) node \<times> nat \<times> nat \<times> 's)" where
  "getNodeOrCompute_rec this cmp Undefined k compute f s =
     (case compute s of (v, s') \<Rightarrow>
        Inr (Node_new f k v this Undefined Undefined, f, Suc f, s'))"
| "getNodeOrCompute_rec this cmp (Node l c r) k compute f s =
     (let c' = cmp k (key c) in
      if cmpLT c' then
        (case getNodeOrCompute_rec this cmp l k compute f s of
           Inl e \<Rightarrow> Inl e
         | Inr (l', h, f', s') \<Rightarrow>
             (case balance (update l' c r) of
                Inl e \<Rightarrow> Inl e
              | Inr n \<Rightarrow> Inr (n, h, f', s')))
      else if cmpGT c' then
        (case getNodeOrCompute_rec this cmp r k compute f s of
           Inl e \<Rightarrow> Inl e
         | Inr (r', h, f', s') \<Rightarrow>
             (case balance (update l c r') of
                Inl e \<Rightarrow> Inl e
              | Inr n \<Rightarrow> Inr (n, h, f', s')))
      else Inr (Node l c r, nid c, f, s))"

text \<open>\<open>getNodeOrCompute\<close>; the node is handed out as the state of the object on return.\<close>

definition getNodeOrCompute ::
  "('k, 'v) sortedmap \<Rightarrow> 'k \<Rightarrow> ('s \<Rightarrow> 'v \<times> 's) \<Rightarrow> 's
   \<Rightarrow> error + (nat \<times> ('k, 'v) sortedmap \<times> 's)" where
  "getNodeOrCompute m k compute s =
     (if root m = Undefined then
        (case compute s of (v, s') \<Rightarrow>
           Inr (fresh m,
                m\<lparr>root := Node_new (fresh m) k v (mid m) Undefined Undefined,
                  fresh := Suc (fresh m)\<rparr>, s'))
      else
        (case getNodeOrCompute_rec (mid m) (comparator m) (root m) k compute (fresh m) s of
           Inl e \<Rightarrow> Inl e
         | Inr (n, h, f', s') \<Rightarrow> Inr (h, m\<lparr>root := n, fresh := f'\<rparr>, s')))"

text \<open>Reading a field through a reference; a dangling reference would be a \<open>TypeError\<close>.\<close>

definition the_node :: "('k, 'v) sortedmap \<Rightarrow> nat \<Rightarrow> error + ('k, 'v) cell" where
  "the_node m h = (case deref h (root m) of None \<Rightarrow> Inl TypeError | Some e \<Rightarrow> Inr e)"

definition getEntryOrCompute ::
  "('k, 'v) sortedmap \<Rightarrow> 'k \<Rightarrow> ('s \<Rightarrow> 'v \<times> 's) \<Rightarrow> 's
   \<Rightarrow> error + (('k, 'v) cell \<times> ('k, 'v) sortedmap \<times> 's)" where
  "getEntryOrCompute m k compute s =
     (case getNodeOrCompute m k compute s of
        Inl e \<Rightarrow> Inl e
      | Inr (h, m', s') \<Rightarrow>
          (case the_node m' h of Inl e \<Rightarrow> Inl e | Inr e \<Rightarrow> Inr (e, m', s')))"

definition getOrCompute ::
  "('k, 'v) sortedmap \<Rightarrow> 'k \<Rightarrow> ('s \<Rightarrow> 'v \<times> 's) \<Rightarrow> 's
   \<Rightarrow> error + ('v \<times> ('k, 'v) sortedmap \<times> 's)" where
  "getOrCompute m k compute s =
     (case getEntryOrCompute m k compute s of
        Inl e \<Rightarrow> Inl e
      | Inr (e, m', s') \<Rightarrow> Inr (val e, m', s'))"

text \<open>
  \<open>set\<close>: the thunk handed to \<open>getNodeOrCompute\<close> sets the local flag \<open>computed\<close>, which
  is its state here.
\<close>

definition set_key ::
  "('k, 'v) sortedmap \<Rightarrow> 'k \<Rightarrow> 'v \<Rightarrow> bool \<Rightarrow> error + (('k, 'v) cell \<times> ('k, 'v) sortedmap)" where
  "set_key m k v replace =
     (case getNodeOrCompute m k (\<lambda>computed. (v, True)) False of
        Inl e \<Rightarrow> Inl e
      | Inr (h, m', computed) \<Rightarrow>
          (let m'' = (if \<not> computed \<and> replace
                      then m'\<lparr>root := modify h (\<lambda>c. c\<lparr>key := k, val := v\<rparr>) (root m')\<rparr>
                      else m')
           in case the_node m'' h of Inl e \<Rightarrow> Inl e | Inr e \<Rightarrow> Inr (e, m'')))"

subsection \<open>Deletion\<close>

text \<open>
  The three recursive deletions. A condition is a function of the entry it is shown and of the
  caller's state \<open>'s\<close> (threaded, as for the thunk above). The wrappers of the source store
  the node for which the condition held in a local variable: here it is returned, in the state
  the object has on return, that is emancipated.
\<close>

type_synonym ('k, 'v, 's) condition = "('k, 'v) cell \<Rightarrow> 's \<Rightarrow> bool \<times> 's"

fun deleteSmallestNode_rec ::
  "('k, 'v) node \<Rightarrow> ('k, 'v, 's) condition \<Rightarrow> 's
   \<Rightarrow> error + (('k, 'v) node \<times> ('k, 'v) cell option \<times> 's)" where
  "deleteSmallestNode_rec Undefined cond s = Inr (Undefined, None, s)"
| "deleteSmallestNode_rec (Node l c r) cond s =
     (if l \<noteq> Undefined then
        (case deleteSmallestNode_rec l cond s of
           Inl e \<Rightarrow> Inl e
         | Inr (l', d, s') \<Rightarrow>
             (case balance (update l' c r) of
                Inl e \<Rightarrow> Inl e
              | Inr n \<Rightarrow> Inr (n, d, s')))
      else
        (case cond c s of (ok, s') \<Rightarrow>
           if \<not> ok then Inr (Node l c r, None, s')
           else Inr (r, Some (emancipate c), s')))"

fun deleteLargestNode_rec ::
  "('k, 'v) node \<Rightarrow> ('k, 'v, 's) condition \<Rightarrow> 's
   \<Rightarrow> error + (('k, 'v) node \<times> ('k, 'v) cell option \<times> 's)" where
  "deleteLargestNode_rec Undefined cond s = Inr (Undefined, None, s)"
| "deleteLargestNode_rec (Node l c r) cond s =
     (if r \<noteq> Undefined then
        (case deleteLargestNode_rec r cond s of
           Inl e \<Rightarrow> Inl e
         | Inr (r', d, s') \<Rightarrow>
             (case balance (update l c r') of
                Inl e \<Rightarrow> Inl e
              | Inr n \<Rightarrow> Inr (n, d, s')))
      else
        (case cond c s of (ok, s') \<Rightarrow>
           if \<not> ok then Inr (Node l c r, None, s')
           else Inr (l, Some (emancipate c), s')))"

text \<open>
  \<open>_deleteNode\<close>. With two children the successor is taken out of the right subtree by
  \<open>_deleteSmallestNode\<close>, which emancipates it, and is then linked in place of the node: it
  keeps the deleted owner. \<open>successor!\<close> on a successor that was not found raises.
\<close>

fun deleteNode_rec ::
  "'k comparator \<Rightarrow> ('k, 'v) node \<Rightarrow> 'k \<Rightarrow> ('k, 'v, 's) condition \<Rightarrow> 's
   \<Rightarrow> error + (('k, 'v) node \<times> ('k, 'v) cell option \<times> 's)" where
  "deleteNode_rec cmp Undefined k cond s = Inr (Undefined, None, s)"
| "deleteNode_rec cmp (Node l c r) k cond s =
     (let c' = cmp k (key c) in
      if cmpLT c' then
        (case deleteNode_rec cmp l k cond s of
           Inl e \<Rightarrow> Inl e
         | Inr (l', d, s') \<Rightarrow>
             (case balance (update l' c r) of
                Inl e \<Rightarrow> Inl e
              | Inr n \<Rightarrow> Inr (n, d, s')))
      else if cmpGT c' then
        (case deleteNode_rec cmp r k cond s of
           Inl e \<Rightarrow> Inl e
         | Inr (r', d, s') \<Rightarrow>
             (case balance (update l c r') of
                Inl e \<Rightarrow> Inl e
              | Inr n \<Rightarrow> Inr (n, d, s')))
      else
        (case cond c s of (ok, s') \<Rightarrow>
           if \<not> ok then Inr (Node l c r, None, s')
           else if l \<noteq> Undefined \<and> r \<noteq> Undefined then
             (case deleteSmallestNode_rec r (\<lambda>n t. (True, t)) s' of
                Inl e \<Rightarrow> Inl e
              | Inr (r', successor, s'') \<Rightarrow>
                  (case successor of
                     None \<Rightarrow> Inl TypeError
                   | Some sc \<Rightarrow>
                       (case balance (update l sc r') of
                          Inl e \<Rightarrow> Inl e
                        | Inr n \<Rightarrow> Inr (n, Some (emancipate c), s''))))
           else if r \<noteq> Undefined then
             (case balance r of
                Inl e \<Rightarrow> Inl e
              | Inr n \<Rightarrow> Inr (n, Some (emancipate c), s'))
           else if l \<noteq> Undefined then
             (case balance l of
                Inl e \<Rightarrow> Inl e
              | Inr n \<Rightarrow> Inr (n, Some (emancipate c), s'))
           else Inr (Undefined, Some (emancipate c), s')))"

text \<open>The optional parameter \<open>condition\<close>, with its default \<open>returns(true)\<close>.\<close>

definition condition_or_default :: "('k, 'v, 's) condition option \<Rightarrow> ('k, 'v, 's) condition" where
  "condition_or_default cond =
     (case cond of None \<Rightarrow> (\<lambda>n s. (returns True n, s)) | Some p \<Rightarrow> p)"

definition delete ::
  "('k, 'v) sortedmap \<Rightarrow> 'k \<Rightarrow> ('k, 'v, 's) condition option \<Rightarrow> 's
   \<Rightarrow> error + (('k, 'v) cell option \<times> ('k, 'v) sortedmap \<times> 's)" where
  "delete m k cond s =
     (case deleteNode_rec (comparator m) (root m) k (condition_or_default cond) s of
        Inl e \<Rightarrow> Inl e
      | Inr (n, d, s') \<Rightarrow> Inr (d, m\<lparr>root := n\<rparr>, s'))"

definition deleteLargest ::
  "('k, 'v) sortedmap \<Rightarrow> ('k, 'v, 's) condition option \<Rightarrow> 's
   \<Rightarrow> error + (('k, 'v) cell option \<times> ('k, 'v) sortedmap \<times> 's)" where
  "deleteLargest m cond s =
     (case deleteLargestNode_rec (root m) (condition_or_default cond) s of
        Inl e \<Rightarrow> Inl e
      | Inr (n, d, s') \<Rightarrow> Inr (d, m\<lparr>root := n\<rparr>, s'))"

definition deleteSmallest ::
  "('k, 'v) sortedmap \<Rightarrow> ('k, 'v, 's) condition option \<Rightarrow> 's
   \<Rightarrow> error + (('k, 'v) cell option \<times> ('k, 'v) sortedmap \<times> 's)" where
  "deleteSmallest m cond s =
     (case deleteSmallestNode_rec (root m) (condition_or_default cond) s of
        Inl e \<Rightarrow> Inl e
      | Inr (n, d, s') \<Rightarrow> Inr (d, m\<lparr>root := n\<rparr>, s'))"

subsection \<open>Entry handles\<close>

text \<open>
  \<open>reKey\<close> and \<open>reValue\<close>. The argument is the current state of the node object the handle
  refers to; the write \<open>node.key = newKey\<close> goes to that object, wherever it is linked.
\<close>

definition reKey ::
  "('k, 'v) sortedmap \<Rightarrow> ('k, 'v) cell \<Rightarrow> 'k \<Rightarrow> bool \<times> ('k, 'v) sortedmap" where
  "reKey m e newKey =
     (if sortedMap e \<noteq> Some (mid m) then (False, m)
      else if cmpNQ (comparator m newKey (key e)) then (False, m)
      else (True, m\<lparr>root := modify (nid e) (\<lambda>c. c\<lparr>key := newKey\<rparr>) (root m)\<rparr>))"

definition reValue ::
  "('k, 'v) sortedmap \<Rightarrow> ('k, 'v) cell \<Rightarrow> 'v \<Rightarrow> bool \<times> ('k, 'v) sortedmap" where
  "reValue m e newValue =
     (if sortedMap e \<noteq> Some (mid m) then (False, m)
      else (True, m\<lparr>root := modify (nid e) (\<lambda>c. c\<lparr>val := newValue\<rparr>) (root m)\<rparr>))"

subsection \<open>Range queries\<close>

text \<open>
  A bound is absent, a bare key, a pair of a key and an optional type, or a function on keys.
  The functions are taken to be pure.
\<close>

datatype range_type = Inclusive | Exclusive

datatype 'k bound = Unbounded | Bare 'k | Tuple 'k "range_type option" | Pred "'k \<Rightarrow> bool"

text \<open>
  The source tells the four cases apart at run time, in this order: \<open>min !== undefined\<close>,
  \<open>min instanceof Function\<close>, \<open>Array.isArray(min)\<close>, and only then the bare key. So a bare
  key that is itself \<open>undefined\<close>, a function or an array takes the branch of the absent
  bound, the predicate or the pair. What these tests see of a key is a \<open>shape\<close>:
  \<open>IsArray a ex\<close> is an array whose element 0 is \<open>a\<close> (compared as a key) and whose
  element 1 is (\<open>ex\<close>) or is not the string \<open>"exclusive"\<close>. How the keys of a map look at
  run time is a parameter of the query.
\<close>

datatype 'k shape = IsUndefined | IsFunction "'k \<Rightarrow> bool" | IsArray 'k bool | Plain

definition tooSmall :: "'k comparator \<Rightarrow> ('k \<Rightarrow> 'k shape) \<Rightarrow> 'k bound \<Rightarrow> 'k \<Rightarrow> bool" where
  "tooSmall cmp shape mn k =
     (case mn of
        Unbounded \<Rightarrow> False
      | Pred p \<Rightarrow> \<not> p k
      | Tuple b ty \<Rightarrow> (if ty = Some Exclusive then cmpLE else cmpLT) (cmp k b)
      | Bare b \<Rightarrow>
          (case shape b of
             IsUndefined \<Rightarrow> False
           | IsFunction p \<Rightarrow> \<not> p k
           | IsArray a ex \<Rightarrow> (if ex then cmpLE else cmpLT) (cmp k a)
           | Plain \<Rightarrow> cmpLT (cmp k b)))"

definition tooBig :: "'k comparator \<Rightarrow> ('k \<Rightarrow> 'k shape) \<Rightarrow> 'k bound \<Rightarrow> 'k \<Rightarrow> bool" where
  "tooBig cmp shape mx k =
     (case mx of
        Unbounded \<Rightarrow> False
      | Pred p \<Rightarrow> \<not> p k
      | Tuple b ty \<Rightarrow> (if ty = Some Exclusive then cmpGE else cmpGT) (cmp k b)
      | Bare b \<Rightarrow>
          (case shape b of
             IsUndefined \<Rightarrow> False
           | IsFunction p \<Rightarrow> \<not> p k
           | IsArray a ex \<Rightarrow> (if ex then cmpGE else cmpGT) (cmp k a)
           | Plain \<Rightarrow> cmpGT (cmp k b)))"

fun getRange_recur ::
  "'k comparator \<Rightarrow> ('k \<Rightarrow> 'k shape) \<Rightarrow> 'k bound \<Rightarrow> 'k bound \<Rightarrow> bool \<Rightarrow> ('k, 'v) node
   \<Rightarrow> ('k, 'v) cell list" where
  "getRange_recur cmp shape mn mx rv Undefined = []"
| "getRange_recur cmp shape mn mx rv (Node l c r) =
     (let small = tooSmall cmp shape mn (key c); big = tooBig cmp shape mx (key c) in
      if rv then
        (if \<not> big then getRange_recur cmp shape mn mx rv r else []) @
        (if \<not> big \<and> \<not> small then [c] else []) @
        (if \<not> small then getRange_recur cmp shape mn mx rv l else [])
      else
        (if \<not> small then getRange_recur cmp shape mn mx rv l else []) @
        (if \<not> big \<and> \<not> small then [c] else []) @
        (if \<not> big then getRange_recur cmp shape mn mx rv r else []))"

definition getRange ::
  "('k, 'v) sortedmap \<Rightarrow> ('k \<Rightarrow> 'k shape) \<Rightarrow> 'k bound \<Rightarrow> 'k bound \<Rightarrow> bool
   \<Rightarrow> ('k, 'v) cell list" where
  "getRange m shape mn mx rv = getRange_recur (comparator m) shape mn mx rv (root m)"

subsection \<open>Reversal and clearing\<close>

text \<open>\<open>_invert\<close>: the links are swapped and the balance factor alone is recomputed, from the
  cached depths of the swapped children.\<close>

fun invert_rec :: "('k, 'v) node \<Rightarrow> ('k, 'v) node" where
  "invert_rec Undefined = Undefined"
| "invert_rec (Node l c r) =
     Node (invert_rec r) (c\<lparr>balanceFactor := calcBalanceFactor r l\<rparr>) (invert_rec l)"

definition reverse :: "('k, 'v) sortedmap \<Rightarrow> ('k, 'v) sortedmap" where
  "reverse m = m\<lparr>root := invert_rec (root m), comparator := reverseComparator (comparator m)\<rparr>"

text \<open>\<open>_emancipateAllNodes\<close>: the objects it cuts loose, in the order it visits them.\<close>

fun emancipateAllNodes_rec :: "('k, 'v) node \<Rightarrow> ('k, 'v) cell list" where
  "emancipateAllNodes_rec Undefined = []"
| "emancipateAllNodes_rec (Node l c r) =
     emancipateAllNodes_rec l @ emancipateAllNodes_rec r @ [emancipate c]"

definition clear :: "('k, 'v) sortedmap \<Rightarrow> ('k, 'v) sortedmap" where
  "clear m = m\<lparr>root := Undefined\<rparr>"

subsection \<open>Queries on the objects\<close>

text \<open>
  The queries once more, this time on the objects themselves. A \<open>Node\<close> object is its own
  fields and the two private links \<open>_left\<close> and \<open>_right\<close>; a link is the identity of the
  object it refers to, or absent. The memory holds the object of every identity and the two
  fields \<open>root\<close> and \<open>comparator\<close> of the map. Every access a query makes is an access to
  the memory it is given, and it hands back the memory it leaves behind together with its
  result; a node is returned as a reference. A loop or a recursion that follows links need
  not end on a memory whose links form a cycle, so a result is optional, \<open>None\<close> being a
  call that does not return. A generator is run to its end; what it yields is a list.
  Comparators and predicates are taken to be pure.
\<close>

record ('k, 'v) object =
  own :: "('k, 'v) cell"
  left :: "nat option"
  right :: "nat option"

record ('k, 'v) memory =
  objects :: "nat \<Rightarrow> ('k, 'v) object"
  this_root :: "nat option"
  this_comparator :: "'k comparator"

text \<open>\<open>getNode\<close>: \<open>let current = this.root; while (current !== undefined) ...\<close>.\<close>

partial_function (option) getNode_while ::
  "'k \<Rightarrow> nat option \<Rightarrow> ('k, 'v) memory \<Rightarrow> (nat option \<times> ('k, 'v) memory) option" where
  "getNode_while k current \<sigma> =
     (case current of
        None \<Rightarrow> Some (None, \<sigma>)
      | Some a \<Rightarrow>
          (let c' = this_comparator \<sigma> k (key (own (objects \<sigma> a))) in
           if cmpLT c' then getNode_while k (left (objects \<sigma> a)) \<sigma>
           else if cmpGT c' then getNode_while k (right (objects \<sigma> a)) \<sigma>
           else Some (current, \<sigma>)))"

definition getNode_mem ::
  "('k, 'v) memory \<Rightarrow> 'k \<Rightarrow> (nat option \<times> ('k, 'v) memory) option" where
  "getNode_mem \<sigma> k = getNode_while k (this_root \<sigma>) \<sigma>"

definition getEntry_mem ::
  "('k, 'v) memory \<Rightarrow> 'k \<Rightarrow> (nat option \<times> ('k, 'v) memory) option" where
  "getEntry_mem \<sigma> k = getNode_mem \<sigma> k"

text \<open>\<open>get\<close>: \<open>this.getEntry(key)?.value\<close>.\<close>

definition get_mem ::
  "('k, 'v option) memory \<Rightarrow> 'k \<Rightarrow> ('v option \<times> ('k, 'v option) memory) option" where
  "get_mem \<sigma> k =
     Option.bind (getEntry_mem \<sigma> k)
       (\<lambda>(e, \<sigma>'). Some (case e of None \<Rightarrow> None | Some a \<Rightarrow> val (own (objects \<sigma>' a)), \<sigma>'))"

text \<open>\<open>getLargestNode\<close> and \<open>getSmallestNode\<close>: without a root the result is \<open>undefined\<close>;
  otherwise \<open>while (current.right !== undefined) current = current.right\<close>, and likewise
  to the left.\<close>

partial_function (option) getLargestNode_while ::
  "nat \<Rightarrow> ('k, 'v) memory \<Rightarrow> (nat \<times> ('k, 'v) memory) option" where
  "getLargestNode_while current \<sigma> =
     (case right (objects \<sigma> current) of
        None \<Rightarrow> Some (current, \<sigma>)
      | Some r \<Rightarrow> getLargestNode_while r \<sigma>)"

partial_function (option) getSmallestNode_while ::
  "nat \<Rightarrow> ('k, 'v) memory \<Rightarrow> (nat \<times> ('k, 'v) memory) option" where
  "getSmallestNode_while current \<sigma> =
     (case left (objects \<sigma> current) of
        None \<Rightarrow> Some (current, \<sigma>)
      | Some l \<Rightarrow> getSmallestNode_while l \<sigma>)"

definition getLargestEntry_mem ::
  "('k, 'v) memory \<Rightarrow> (nat option \<times> ('k, 'v) memory) option" where
  "getLargestEntry_mem \<sigma> =
     (case this_root \<sigma> of
        None \<Rightarrow> Some (None, \<sigma>)
      | Some a \<Rightarrow> Option.bind (getLargestNode_while a \<sigma>) (\<lambda>(e, \<sigma>'). Some (Some e, \<sigma>')))"

definition getSmallestEntry_mem ::
  "('k, 'v) memory \<Rightarrow> (nat option \<times> ('k, 'v) memory) option" where
  "getSmallestEntry_mem \<sigma> =
     (case this_root \<sigma> of
        None \<Rightarrow> Some (None, \<sigma>)
      | Some a \<Rightarrow> Option.bind (getSmallestNode_while a \<sigma>) (\<lambda>(e, \<sigma>'). Some (Some e, \<sigma>')))"

text \<open>\<open>_iterator\<close> and \<open>_iteratorReversed\<close>. The link to the second subtree is read after
  the node has been yielded, from the memory as it is then.\<close>

partial_function (option) iterator_mem ::
  "nat option \<Rightarrow> ('k, 'v) memory \<Rightarrow> (nat list \<times> ('k, 'v) memory) option" where
  "iterator_mem node \<sigma> =
     (case node of
        None \<Rightarrow> Some ([], \<sigma>)
      | Some a \<Rightarrow>
          Option.bind (iterator_mem (left (objects \<sigma> a)) \<sigma>) (\<lambda>(xs, \<sigma>1).
          Option.bind (iterator_mem (right (objects \<sigma>1 a)) \<sigma>1) (\<lambda>(ys, \<sigma>2).
          Some (xs @ a # ys, \<sigma>2))))"

partial_function (option) iteratorReversed_mem ::
  "nat option \<Rightarrow> ('k, 'v) memory \<Rightarrow> (nat list \<times> ('k, 'v) memory) option" where
  "iteratorReversed_mem node \<sigma> =
     (case node of
        None \<Rightarrow> Some ([], \<sigma>)
      | Some a \<Rightarrow>
          Option.bind (iteratorReversed_mem (right (objects \<sigma> a)) \<sigma>) (\<lambda>(xs, \<sigma>1).
          Option.bind (iteratorReversed_mem (left (objects \<sigma>1 a)) \<sigma>1) (\<lambda>(ys, \<sigma>2).
          Some (xs @ a # ys, \<sigma>2))))"

text \<open>The default iteration, \<open>reversed()\<close>, and \<open>keys()\<close>, \<open>values()\<close> and \<open>entries()\<close>,
  which read the key and the value of every node the default iteration yields.\<close>

definition iteration_mem ::
  "('k, 'v) memory \<Rightarrow> (nat list \<times> ('k, 'v) memory) option" where
  "iteration_mem \<sigma> = iterator_mem (this_root \<sigma>) \<sigma>"

definition reversed_mem ::
  "('k, 'v) memory \<Rightarrow> (nat list \<times> ('k, 'v) memory) option" where
  "reversed_mem \<sigma> = iteratorReversed_mem (this_root \<sigma>) \<sigma>"

definition keys_mem :: "('k, 'v) memory \<Rightarrow> ('k list \<times> ('k, 'v) memory) option" where
  "keys_mem \<sigma> =
     Option.bind (iteration_mem \<sigma>)
       (\<lambda>(xs, \<sigma>'). Some (map (\<lambda>a. key (own (objects \<sigma>' a))) xs, \<sigma>'))"

definition values_mem :: "('k, 'v) memory \<Rightarrow> ('v list \<times> ('k, 'v) memory) option" where
  "values_mem \<sigma> =
     Option.bind (iteration_mem \<sigma>)
       (\<lambda>(xs, \<sigma>'). Some (map (\<lambda>a. val (own (objects \<sigma>' a))) xs, \<sigma>'))"

definition entries_mem ::
  "('k, 'v) memory \<Rightarrow> (('k \<times> 'v) list \<times> ('k, 'v) memory) option" where
  "entries_mem \<sigma> =
     Option.bind (iteration_mem \<sigma>)
       (\<lambda>(xs, \<sigma>').
          Some (map (\<lambda>a. (key (own (objects \<sigma>' a)), val (own (objects \<sigma>' a)))) xs, \<sigma>'))"

text \<open>\<open>getRange\<close>: the generator \<open>recur\<close>.\<close>

partial_function (option) getRange_mem_recur ::
  "('k \<Rightarrow> 'k shape) \<Rightarrow> 'k bound \<Rightarrow> 'k bound \<Rightarrow> bool \<Rightarrow> nat option \<Rightarrow> ('k, 'v) memory
   \<Rightarrow> (nat list \<times> ('k, 'v) memory) option" where
  "getRange_mem_recur shape mn mx rv node \<sigma> =
     (case node of
        None \<Rightarrow> Some ([], \<sigma>)
      | Some a \<Rightarrow>
          (let small = tooSmall (this_comparator \<sigma>) shape mn (key (own (objects \<sigma> a)));
               big = tooBig (this_comparator \<sigma>) shape mx (key (own (objects \<sigma> a)))
           in
           if rv then
             Option.bind
               (if \<not> big then getRange_mem_recur shape mn mx rv (right (objects \<sigma> a)) \<sigma>
                else Some ([], \<sigma>)) (\<lambda>(xs, \<sigma>1).
             Option.bind
               (if \<not> small then getRange_mem_recur shape mn mx rv (left (objects \<sigma>1 a)) \<sigma>1
                else Some ([], \<sigma>1)) (\<lambda>(ys, \<sigma>2).
             Some (xs @ (if \<not> big \<and> \<not> small then [a] else []) @ ys, \<sigma>2)))
           else
             Option.bind
               (if \<not> small then getRange_mem_recur shape mn mx rv (left (objects \<sigma> a)) \<sigma>
                else Some ([], \<sigma>)) (\<lambda>(xs, \<sigma>1).
             Option.bind
               (if \<not> big then getRange_mem_recur shape mn mx rv (right (objects \<sigma>1 a)) \<sigma>1
                else Some ([], \<sigma>1)) (\<lambda>(ys, \<sigma>2).
             Some (xs @ (if \<not> big \<and> \<not> small then [a] else []) @ ys, \<sigma>2)))))"

definition getRange_mem ::
  "('k, 'v) memory \<Rightarrow> ('k \<Rightarrow> 'k shape) \<Rightarrow> 'k bound \<Rightarrow> 'k bound \<Rightarrow> bool
   \<Rightarrow> (nat list \<times> ('k, 'v) memory) option" where
  "getRange_mem \<sigma> shape mn mx rv = getRange_mem_recur shape mn mx rv (this_root \<sigma>) \<sigma>"

section \<open>Scenarios\<close>

text \<open>\<open>set(k, v)\<close> for each pair of a list in turn, with the default \<open>replace = true\<close>.\<close>

fun set_all :: "('k, 'v) sortedmap \<Rightarrow> ('k \<times> 'v) list \<Rightarrow> error + ('k, 'v) sortedmap" where
  "set_all m [] = Inr m"
| "set_all m ((k, v) # kvs) =
     (case set_key m k v True of Inl e \<Rightarrow> Inl e | Inr (_, m') \<Rightarrow> set_all m' kvs)"

section \<open>Specification vocabulary\<close>

text \<open>The order invariant: below a node, the keys on the left compare less than its key and
  the keys on the right compare greater.\<close>

fun bst :: "'k comparator \<Rightarrow> ('k, 'v) node \<Rightarrow> bool" where
  "bst cmp Undefined = True"
| "bst cmp (Node l c r) =
     ((\<forall>x \<in> set (iterator l). cmpLT (cmp (key x) (key c))) \<and>
      (\<forall>x \<in> set (iterator r). cmpGT (cmp (key x) (key c))) \<and>
      bst cmp l \<and> bst cmp r)"

text \<open>What \<open>balance\<close> relies on: cached depths are at least 1, and a node whose cached
  balance factor asks for a rotation has the child that the rotation promotes.\<close>

fun safe :: "('k, 'v) node \<Rightarrow> bool" where
  "safe Undefined = True"
| "safe (Node l c r) =
     (1 \<le> depth c \<and>
      (balanceFactor c < - 1 \<longrightarrow> l \<noteq> Undefined) \<and>
      (1 < balanceFactor c \<longrightarrow> r \<noteq> Undefined) \<and>
      safe l \<and> safe r)"

text \<open>A tree whose cached values are up to date and whose balance factors are within
  bounds.\<close>

fun settled :: "('k, 'v) node \<Rightarrow> bool" where
  "settled Undefined = True"
| "settled (Node l c r) =
     (depth c = calcDepth l r \<and> nodeCount c = calcNodeCount l r \<and>
      balanceFactor c = calcBalanceFactor l r \<and>
      - 1 \<le> balanceFactor c \<and> balanceFactor c \<le> 1 \<and> settled l \<and> settled r)"

text \<open>An entry without its cached values, and the entries of a tree in key order.\<close>

definition stored :: "('k, 'v) cell \<Rightarrow> ('k, 'v) cell" where
  "stored c = c\<lparr>depth := 0, nodeCount := 0, balanceFactor := 0\<rparr>"

definition contents :: "('k, 'v) node \<Rightarrow> ('k, 'v) cell list" where
  "contents t = map stored (iterator t)"

text \<open>"Compares less".\<close>

definition before :: "'k comparator \<Rightarrow> 'k \<Rightarrow> 'k \<Rightarrow> bool" where
  "before cmp a b = (cmp a b < 0)"

text \<open>\<open>zs\<close> is \<open>xs\<close> with the entry \<open>e\<close> put between the smaller and the larger keys.\<close>

definition placed ::
  "'k comparator \<Rightarrow> ('k, 'v) cell \<Rightarrow> ('k, 'v) cell list \<Rightarrow> ('k, 'v) cell list \<Rightarrow> bool" where
  "placed cmp e xs zs \<longleftrightarrow>
     (\<exists>as bs. xs = as @ bs \<and> zs = as @ e # bs \<and>
        (\<forall>a \<in> set as. before cmp (key a) (key e)) \<and>
        (\<forall>b \<in> set bs. before cmp (key e) (key b)))"

text \<open>The entry of a node just made by the constructor, cached values blanked.\<close>

definition entry_new :: "nat \<Rightarrow> nat \<Rightarrow> 'k \<Rightarrow> 'v \<Rightarrow> ('k, 'v) cell" where
  "entry_new this i k v =
     \<lparr>nid = i, key = k, val = v, sortedMap = Some this,
      depth = 0, nodeCount = 0, balanceFactor = 0\<rparr>"

text \<open>\<open>zs\<close> is \<open>xs\<close>, except that entries may have lost their owner.\<close>

definition kept :: "('k, 'v) cell list \<Rightarrow> ('k, 'v) cell list \<Rightarrow> bool" where
  "kept zs xs \<longleftrightarrow> list_all2 (\<lambda>z x. z = x \<or> z = emancipate x) zs xs"

text \<open>Keys in strictly ascending order, node identities distinct and below the counter,
  owners absent or this map.\<close>

definition well :: "'k comparator \<Rightarrow> nat \<Rightarrow> nat \<Rightarrow> ('k, 'v) cell list \<Rightarrow> bool" where
  "well cmp this f xs \<longleftrightarrow>
     sorted_wrt (before cmp) (map key xs) \<and> distinct (map nid xs) \<and>
     (\<forall>e \<in> set xs. nid e < f \<and> (sortedMap e = None \<or> sortedMap e = Some this))"

definition invar :: "('k, 'v) sortedmap \<Rightarrow> bool" where
  "invar m \<longleftrightarrow>
     total_order (comparator m) \<and> safe (root m) \<and>
     well (comparator m) (mid m) (fresh m) (contents (root m))"

text \<open>A handle a caller can hold: the state of a node object. A node that names this map
  as its owner is one of the nodes of its tree.\<close>

definition genuine :: "('k, 'v) sortedmap \<Rightarrow> ('k, 'v) cell \<Rightarrow> bool" where
  "genuine m e \<longleftrightarrow> (sortedMap e = Some (mid m) \<longrightarrow> e \<in> set (iterator (root m)))"

text \<open>The maps a program can build, with the state of its callbacks: a new map over an
  order, and whatever a public method that completes makes of such a map.\<close>

inductive reach :: "('k, 'v) sortedmap \<Rightarrow> 's \<Rightarrow> bool" where
  new: "total_order order \<Longrightarrow> reach (SortedMap_new i order) s"
| caller: "reach m s \<Longrightarrow> reach m s'"
| set_key: "reach m s \<Longrightarrow> set_key m k v replace = Inr (e, m') \<Longrightarrow> reach m' s"
| getEntryOrCompute:
    "reach m s \<Longrightarrow> getEntryOrCompute m k compute s = Inr (e, m', s') \<Longrightarrow> reach m' s'"
| getOrCompute: "reach m s \<Longrightarrow> getOrCompute m k compute s = Inr (v, m', s') \<Longrightarrow> reach m' s'"
| delete: "reach m s \<Longrightarrow> delete m k cond s = Inr (d, m', s') \<Longrightarrow> reach m' s'"
| deleteSmallest: "reach m s \<Longrightarrow> deleteSmallest m cond s = Inr (d, m', s') \<Longrightarrow> reach m' s'"
| deleteLargest: "reach m s \<Longrightarrow> deleteLargest m cond s = Inr (d, m', s') \<Longrightarrow> reach m' s'"
| reKey: "reach m s \<Longrightarrow> genuine m e \<Longrightarrow> reKey m e k = (ok, m') \<Longrightarrow> reach m' s"
| reValue: "reach m s \<Longrightarrow> genuine m e \<Longrightarrow> reValue m e v = (ok, m') \<Longrightarrow> reach m' s"
| reverse: "reach m s \<Longrightarrow> reach (reverse m) s"
| clear: "reach m s \<Longrightarrow> reach (clear m) s"

text \<open>The bounds as the specification words them: a bare key is an inclusive bound, a
  pair carries its type (inclusive when none is given), a predicate says whether the key is
  not too small (not too big).\<close>

definition satisfies_min :: "'k comparator \<Rightarrow> 'k bound \<Rightarrow> 'k \<Rightarrow> bool" where
  "satisfies_min cmp mn k =
     (case mn of
        Unbounded \<Rightarrow> True
      | Bare b \<Rightarrow> 0 \<le> cmp k b
      | Tuple b ty \<Rightarrow> (if ty = Some Exclusive then 0 < cmp k b else 0 \<le> cmp k b)
      | Pred p \<Rightarrow> p k)"

definition satisfies_max :: "'k comparator \<Rightarrow> 'k bound \<Rightarrow> 'k \<Rightarrow> bool" where
  "satisfies_max cmp mx k =
     (case mx of
        Unbounded \<Rightarrow> True
      | Bare b \<Rightarrow> cmp k b \<le> 0
      | Tuple b ty \<Rightarrow> (if ty = Some Exclusive then cmp k b < 0 else cmp k b \<le> 0)
      | Pred p \<Rightarrow> p k)"

definition in_range :: "'k comparator \<Rightarrow> 'k bound \<Rightarrow> 'k bound \<Rightarrow> ('k, 'v) cell \<Rightarrow> bool" where
  "in_range cmp mn mx e = (satisfies_min cmp mn (key e) \<and> satisfies_max cmp mx (key e))"

text \<open>A bare key that the run-time tests of \<open>getRange\<close> leave a bare key: it is not
  \<open>undefined\<close>, not a function and not an array.\<close>

definition plain :: "('k \<Rightarrow> 'k shape) \<Rightarrow> 'k bound \<Rightarrow> bool" where
  "plain shape b = (case b of Bare k \<Rightarrow> shape k = Plain | _ \<Rightarrow> True)"

text \<open>A predicate bound that is monotone in the order.\<close>

definition upward :: "'k comparator \<Rightarrow> 'k bound \<Rightarrow> bool" where
  "upward cmp mn =
     (case mn of Pred p \<Rightarrow> (\<forall>a b. p a \<longrightarrow> cmp a b \<le> 0 \<longrightarrow> p b) | _ \<Rightarrow> True)"

definition downward :: "'k comparator \<Rightarrow> 'k bound \<Rightarrow> bool" where
  "downward cmp mx =
     (case mx of Pred p \<Rightarrow> (\<forall>a b. p b \<longrightarrow> cmp a b \<le> 0 \<longrightarrow> p a) | _ \<Rightarrow> True)"

text \<open>The shape of a tree: per node in key order, its identity and the identities of its
  children. The actual height of a subtree, and per node the actual difference of heights.\<close>

fun root_id :: "('k, 'v) node \<Rightarrow> nat option" where
  "root_id Undefined = None"
| "root_id (Node l c r) = Some (nid c)"

fun links :: "('k, 'v) node \<Rightarrow> (nat \<times> nat option \<times> nat option) list" where
  "links Undefined = []"
| "links (Node l c r) = links l @ (nid c, root_id l, root_id r) # links r"

fun height :: "('k, 'v) node \<Rightarrow> int" where
  "height Undefined = 0"
| "height (Node l c r) = max (height l) (height r) + 1"

fun slopes :: "('k, 'v) node \<Rightarrow> int list" where
  "slopes Undefined = []"
| "slopes (Node l c r) = slopes l @ (height r - height l) # slopes r"

text \<open>The scenario maps: the keys 5, 3, 8, 1, 4, 7, 9 of the specification's scenarios, the
  keys 3, 1, 2 and the keys 1, 2, 3, each key mapped to itself and set in that order on a new
  map of identity 0 with the default order.\<close>

definition keyed :: "int list \<Rightarrow> (int \<times> int option) list" where
  "keyed ks = map (\<lambda>k. (k, Some k)) ks"

definition sevenKeys :: "(int, int option) sortedmap" where
  "sevenKeys = projr (set_all (SortedMap_new 0 autoComparator) (keyed [5, 3, 8, 1, 4, 7, 9]))"

definition zigzag :: "(int, int option) sortedmap" where
  "zigzag = projr (set_all (SortedMap_new 0 autoComparator) (keyed [3, 1, 2]))"

definition ascending :: "(int, int option) sortedmap" where
  "ascending = projr (set_all (SortedMap_new 0 autoComparator) (keyed [1, 2, 3]))"

text \<open>Numbers are plain keys.\<close>

definition numberShape :: "int \<Rightarrow> int shape" where
  "numberShape k = Plain"

text \<open>
  A map whose keys are arrays of numbers, ordered by the sum of their elements with a
  comparator that takes a number for its own sum (in the source's language:
  \<open>(a, b) => total(a) - total(b)\<close> with
  \<open>total = x => [].concat(x ?? []).reduce((s, y) => s + y, 0)\<close>). The key values that can reach
  the comparator are the arrays, their elements and \<open>undefined\<close> (element 0 of the empty
  array). The keys \<open>[1, 5]\<close>, \<open>[2, 1]\<close> and \<open>[3, 25]\<close> are set in that order.
\<close>

datatype jskey = NoKey | NumberKey int | ArrayKey "int list"

fun jsShape :: "jskey \<Rightarrow> jskey shape" where
  "jsShape NoKey = IsUndefined"
| "jsShape (NumberKey n) = Plain"
| "jsShape (ArrayKey []) = IsArray NoKey False"
| "jsShape (ArrayKey (x # xs)) = IsArray (NumberKey x) False"

fun total :: "jskey \<Rightarrow> int" where
  "total NoKey = 0"
| "total (NumberKey n) = n"
| "total (ArrayKey xs) = sum_list xs"

fun bySum :: "jskey comparator" where
  "bySum a b = total a - total b"

definition arrayKeys :: "(jskey, int option) sortedmap" where
  "arrayKeys = projr (set_all (SortedMap_new 0 bySum)
     [(ArrayKey [1, 5], None), (ArrayKey [2, 1], None), (ArrayKey [3, 25], None)])"

text \<open>A second map, a handle of the first, and what deleting the key 4 returns.\<close>

definition otherMap :: "(int, int option) sortedmap" where
  "otherMap = SortedMap_new 1 autoComparator"

definition entry4 :: "(int, int option) cell" where
  "entry4 = the (getEntry sevenKeys 4)"

definition removed4 :: "(int, int option) cell option \<times> (int, int option) sortedmap \<times> unit" where
  "removed4 = projr (delete sevenKeys 4 None ())"

text \<open>
  The memory holds the tree \<open>t\<close> at the link \<open>p\<close>: the object at \<open>p\<close> has the identity and
  the own fields of the root of \<open>t\<close>, and its links hold the two subtrees. A memory models a
  map when it holds the tree of the map at \<open>root\<close> and has its comparator. \<open>memory_of h m\<close>
  is the memory of a program whose objects are \<open>h\<close>, with the nodes of \<open>m\<close> laid over them.
\<close>

fun holds :: "(nat \<Rightarrow> ('k, 'v) object) \<Rightarrow> nat option \<Rightarrow> ('k, 'v) node \<Rightarrow> bool" where
  "holds h p Undefined = (p = None)"
| "holds h p (Node l c r) =
     (case p of
        None \<Rightarrow> False
      | Some a \<Rightarrow> nid c = a \<and> own (h a) = c \<and>
          holds h (left (h a)) l \<and> holds h (right (h a)) r)"

definition models :: "('k, 'v) memory \<Rightarrow> ('k, 'v) sortedmap \<Rightarrow> bool" where
  "models \<sigma> m = (holds (objects \<sigma>) (this_root \<sigma>) (root m) \<and> this_comparator \<sigma> = comparator m)"

fun lay :: "('k, 'v) node \<Rightarrow> (nat \<Rightarrow> ('k, 'v) object) \<Rightarrow> nat \<Rightarrow> ('k, 'v) object" where
  "lay Undefined h = h"
| "lay (Node l c r) h =
     (lay r (lay l h))(nid c := \<lparr>own = c, left = root_id l, right = root_id r\<rparr>)"

definition memory_of ::
  "(nat \<Rightarrow> ('k, 'v) object) \<Rightarrow> ('k, 'v) sortedmap \<Rightarrow> ('k, 'v) memory" where
  "memory_of h m =
     \<lparr>objects = lay (root m) h, this_root = root_id (root m), this_comparator = comparator m\<rparr>"

text \<open>A memory for the map of the keys 3, 1, 2.\<close>

definition blank :: "(int, int option) object" where
  "blank = \<lparr>own = \<lparr>nid = 0, key = 0, val = None, sortedMap = None, depth = 1, nodeCount = 1,
                    balanceFactor = 0\<rparr>, left = None, right = None\<rparr>"

definition zigzagMemory :: "(int, int option) memory" where
  "zigzagMemory = memory_of (\<lambda>a. blank) zigzag"

section \<open>Orders, rotations and the recursive methods\<close>

lemma to_sym: "total_order cmp \<Longrightarrow> (cmp a b < 0) = (0 < cmp b a)"
  by (simp add: total_order_def)

lemma to_refl: "total_order cmp \<Longrightarrow> cmp a a = 0"
  using to_sym [of cmp a a] by linarith

lemma to_le_trans: "total_order cmp \<Longrightarrow> cmp a b \<le> 0 \<Longrightarrow> cmp b c \<le> 0 \<Longrightarrow> cmp a c \<le> 0"
  unfolding total_order_def by blast

lemma to_ge: "total_order cmp \<Longrightarrow> (0 \<le> cmp a b) = (cmp b a \<le> 0)"
  using to_sym [of cmp a b] by linarith

lemma to_eq_sym: "total_order cmp \<Longrightarrow> (cmp a b = 0) = (cmp b a = 0)"
  using to_sym [of cmp a b] to_sym [of cmp b a] by linarith

lemma to_lt_le: "total_order cmp \<Longrightarrow> cmp a b < 0 \<Longrightarrow> cmp b c \<le> 0 \<Longrightarrow> cmp a c < 0"
proof (rule ccontr)
  assume t: "total_order cmp" and ab: "cmp a b < 0" and bc: "cmp b c \<le> 0" and n: "\<not> cmp a c < 0"
  from n have "cmp c a \<le> 0" using to_ge [OF t, of a c] by simp
  with bc have "cmp b a \<le> 0" using to_le_trans [OF t] by blast
  with ab show False using to_sym [OF t, of a b] by simp
qed

lemma to_le_lt: "total_order cmp \<Longrightarrow> cmp a b \<le> 0 \<Longrightarrow> cmp b c < 0 \<Longrightarrow> cmp a c < 0"
proof (rule ccontr)
  assume t: "total_order cmp" and ab: "cmp a b \<le> 0" and bc: "cmp b c < 0" and n: "\<not> cmp a c < 0"
  from n have "cmp c a \<le> 0" using to_ge [OF t, of a c] by simp
  with ab have "cmp c b \<le> 0" using to_le_trans [OF t] by blast
  with bc show False using to_sym [OF t, of b c] by simp
qed

lemma to_lt_trans: "total_order cmp \<Longrightarrow> cmp a b < 0 \<Longrightarrow> cmp b c < 0 \<Longrightarrow> cmp a c < 0"
  using to_lt_le [of cmp a b c] by simp

lemma to_reverse: "total_order cmp \<Longrightarrow> total_order (reverseComparator cmp)"
  unfolding total_order_def reverseComparator_def by blast

lemma to_auto: "total_order (autoComparator :: 'k::linorder comparator)"
  unfolding total_order_def by auto

subsection \<open>The order invariant as a sorted sequence\<close>

lemma bst_sorted:
  assumes "total_order cmp"
  shows "bst cmp t = sorted_wrt (before cmp) (map key (iterator t))"
proof (induction t)
  case Undefined
  show ?case by simp
next
  case (Node l c r)
  have gt: "\<And>x. cmpGT (cmp x (key c)) = before cmp (key c) x"
    by (simp add: cmpGT_def before_def to_sym [OF assms])
  have lt: "\<And>x. cmpLT (cmp x (key c)) = before cmp x (key c)"
    by (simp add: cmpLT_def before_def)
  have tr: "\<And>x y. before cmp x (key c) \<Longrightarrow> before cmp (key c) y \<Longrightarrow> before cmp x y"
    unfolding before_def using to_lt_trans [OF assms] by blast
  show ?case
    unfolding bst.simps iterator.simps map_append list.map sorted_wrt_append sorted_wrt.simps
      Node gt lt
    using tr by auto
qed


subsection \<open>Rotations keep the entries and can be carried out\<close>

lemma stored_refresh [simp]: "stored (refresh l c r) = stored c"
  by (simp add: stored_def refresh_def)

lemma contents_Undefined [simp]: "contents Undefined = []"
  by (simp add: contents_def)

lemma contents_Node [simp]: "contents (Node l c r) = contents l @ stored c # contents r"
  by (simp add: contents_def)

lemma contents_update [simp]: "contents (update l c r) = contents l @ stored c # contents r"
  by (simp add: update_def)

lemma rotateLeft_contents: "rotateLeft t = Inr t' \<Longrightarrow> contents t' = contents t"
  by (induction t rule: rotateLeft.induct) auto

lemma rotateRight_contents: "rotateRight t = Inr t' \<Longrightarrow> contents t' = contents t"
  by (induction t rule: rotateRight.induct) auto

lemma balance_contents: "balance t = Inr t' \<Longrightarrow> contents t' = contents t"
  by (cases t) (auto simp: rotateLeft_contents rotateRight_contents split: if_splits)

lemma depth_of_nonneg: "safe t \<Longrightarrow> 0 \<le> depth_of t"
  by (cases t) auto

lemma safe_refresh:
  assumes "safe l" "safe r"
  shows "1 \<le> depth (refresh l c r)"
    and "balanceFactor (refresh l c r) < - 1 \<Longrightarrow> l \<noteq> Undefined"
    and "1 < balanceFactor (refresh l c r) \<Longrightarrow> r \<noteq> Undefined"
  using depth_of_nonneg [OF assms(1)] depth_of_nonneg [OF assms(2)]
  by (auto simp: refresh_def calcDepth_def calcBalanceFactor_def)

lemma safe_update: "safe l \<Longrightarrow> safe r \<Longrightarrow> safe (update l c r)"
  using safe_refresh [of l r c] by (simp add: update_def)

lemma rotateRight_safe:
  assumes "safe (Node l c r)" "l \<noteq> Undefined"
  shows "\<exists>t'. rotateRight (Node l c r) = Inr t' \<and> safe t'"
proof -
  from assms(2) obtain ll lc lr where l: "l = Node ll lc lr" by (cases l) auto
  from assms(1) l have s: "safe ll" "safe lr" "safe r" "1 \<le> depth c" by auto
  have 1: "safe (update lr c r)" using s by (simp add: safe_update)
  have 2: "1 \<le> depth (refresh ll lc (Node lr c r))"
    using s depth_of_nonneg [of ll] by (simp add: refresh_def calcDepth_def)
  have 3: "balanceFactor (refresh ll lc (Node lr c r)) < - 1 \<Longrightarrow> ll \<noteq> Undefined"
    using s by (auto simp: refresh_def calcBalanceFactor_def)
  show ?thesis using l s 1 2 3 by (simp add: update_def)
qed

lemma rotateLeft_safe:
  assumes "safe (Node l c r)" "r \<noteq> Undefined"
  shows "\<exists>t'. rotateLeft (Node l c r) = Inr t' \<and> safe t'"
proof -
  from assms(2) obtain rl rc rr where r: "r = Node rl rc rr" by (cases r) auto
  from assms(1) r have s: "safe rl" "safe rr" "safe l" "1 \<le> depth c" by auto
  have 1: "safe (update l c rl)" using s by (simp add: safe_update)
  have 2: "1 \<le> depth (refresh (Node l c rl) rc rr)"
    using s depth_of_nonneg [of rr] by (simp add: refresh_def calcDepth_def)
  have 3: "1 < balanceFactor (refresh (Node l c rl) rc rr) \<Longrightarrow> rr \<noteq> Undefined"
    using s by (auto simp: refresh_def calcBalanceFactor_def)
  show ?thesis using r s 1 2 3 by (simp add: update_def)
qed

lemma balance_safe: "safe t \<Longrightarrow> \<exists>t'. balance t = Inr t' \<and> safe t'"
proof (cases t)
  case Undefined
  then show ?thesis by simp
next
  case (Node l c r)
  assume s: "safe t"
  show ?thesis
  proof (cases "balanceFactor c < - 1")
    case True
    then have "l \<noteq> Undefined" using s Node by auto
    then show ?thesis using rotateRight_safe [of l c r] s Node True by simp
  next
    case False
    show ?thesis
    proof (cases "1 < balanceFactor c")
      case True
      then have "r \<noteq> Undefined" using s Node by auto
      then show ?thesis using rotateLeft_safe [of l c r] s Node True False by simp
    next
      case F2: False
      then show ?thesis using s Node False by simp
    qed
  qed
qed

lemma balance_update_safe:
  "safe l \<Longrightarrow> safe r \<Longrightarrow> \<exists>t'. balance (update l c r) = Inr t' \<and> safe t'"
  using balance_safe [OF safe_update] by blast


subsection \<open>Insertion\<close>

lemma key_stored [simp]: "key (stored c) = key c" and nid_stored [simp]: "nid (stored c) = nid c"
  and val_stored [simp]: "val (stored c) = val c"
  and sortedMap_stored [simp]: "sortedMap (stored c) = sortedMap c"
  by (simp_all add: stored_def)

lemma keys_contents: "map key (contents t) = map key (iterator t)"
  by (simp add: contents_def)

lemma bst_contents:
  "total_order cmp \<Longrightarrow> bst cmp t = sorted_wrt (before cmp) (map key (contents t))"
  by (simp add: bst_sorted keys_contents)

lemma bst_NodeD:
  assumes "total_order cmp" "bst cmp (Node l c r)"
  shows "bst cmp l" "bst cmp r"
    "\<forall>x \<in> set (contents l). before cmp (key x) (key c)"
    "\<forall>x \<in> set (contents r). before cmp (key c) (key x)"
  using assms by (auto simp: contents_def before_def cmpLT_def cmpGT_def to_sym [of cmp])

lemma placed_left:
  assumes t: "total_order cmp" and p: "placed cmp e xs zs"
    and ec: "before cmp (key e) (key c)" and cy: "\<forall>y \<in> set ys. before cmp (key c) (key y)"
  shows "placed cmp e (xs @ c # ys) (zs @ c # ys)"
proof -
  from p obtain as bs where ab: "xs = as @ bs" "zs = as @ e # bs"
    "\<forall>a \<in> set as. before cmp (key a) (key e)" "\<forall>b \<in> set bs. before cmp (key e) (key b)"
    unfolding placed_def by blast
  have "\<forall>y \<in> set ys. before cmp (key e) (key y)"
    using ec cy to_lt_trans [OF t] unfolding before_def by blast
  with ab ec have "\<forall>b \<in> set (bs @ c # ys). before cmp (key e) (key b)" by auto
  moreover have "xs @ c # ys = as @ (bs @ c # ys)" "zs @ c # ys = as @ e # (bs @ c # ys)"
    using ab by simp_all
  ultimately show ?thesis unfolding placed_def using ab(3) by blast
qed

lemma placed_right:
  assumes t: "total_order cmp" and p: "placed cmp e ys zs"
    and ce: "before cmp (key c) (key e)" and xc: "\<forall>x \<in> set xs. before cmp (key x) (key c)"
  shows "placed cmp e (xs @ c # ys) (xs @ c # zs)"
proof -
  from p obtain as bs where ab: "ys = as @ bs" "zs = as @ e # bs"
    "\<forall>a \<in> set as. before cmp (key a) (key e)" "\<forall>b \<in> set bs. before cmp (key e) (key b)"
    unfolding placed_def by blast
  have "\<forall>x \<in> set xs. before cmp (key x) (key e)"
    using ce xc to_lt_trans [OF t] unfolding before_def by blast
  with ab ce have "\<forall>a \<in> set ((xs @ c # as)). before cmp (key a) (key e)" by auto
  moreover have "xs @ c # ys = (xs @ c # as) @ bs" "xs @ c # zs = (xs @ c # as) @ e # bs"
    using ab by simp_all
  ultimately show ?thesis unfolding placed_def using ab(4) by blast
qed

lemma placed_empty: "placed cmp e [] [e]"
  unfolding placed_def by simp

lemma contents_Node_new [simp]:
  "contents (Node_new f k v this Undefined Undefined) = [entry_new this f k v]"
  by (simp add: Node_new_def stored_def entry_new_def)

lemma safe_Node_new [simp]: "safe (Node_new f k v this Undefined Undefined)"
  by (simp add: Node_new_def calcDepth_def calcBalanceFactor_def)

lemma ins_safe:
  "safe t \<Longrightarrow> \<exists>t' h f' s'. getNodeOrCompute_rec this cmp t k compute f s = Inr (t', h, f', s') \<and> safe t'"
proof (induction t)
  case Undefined
  show ?case by (simp split: prod.splits)
next
  case (Node l c r)
  from Node.prems have sl: "safe l" and sr: "safe r" by auto
  show ?case
  proof (cases "cmpLT (cmp k (key c))")
    case True
    from Node.IH(1) [OF sl] obtain l' h f' s' where
      1: "getNodeOrCompute_rec this cmp l k compute f s = Inr (l', h, f', s')" and 2: "safe l'"
      by blast
    from balance_update_safe [OF 2 sr] obtain n where "balance (update l' c r) = Inr n" "safe n"
      by blast
    with True 1 show ?thesis by simp
  next
    case False
    show ?thesis
    proof (cases "cmpGT (cmp k (key c))")
      case True
      from Node.IH(2) [OF sr] obtain r' h f' s' where
        1: "getNodeOrCompute_rec this cmp r k compute f s = Inr (r', h, f', s')" and 2: "safe r'"
        by blast
      from balance_update_safe [OF sl 2] obtain n where "balance (update l c r') = Inr n" "safe n"
        by blast
      with True False 1 show ?thesis by simp
    next
      case F2: False
      with False Node.prems show ?thesis by simp
    qed
  qed
qed

lemma ins_present:
  "getNode_loop cmp k t = Some e \<Longrightarrow>
   getNodeOrCompute_rec this cmp t k compute f s = Inr (t', h, f', s') \<Longrightarrow>
   contents t' = contents t \<and> h = nid e \<and> f' = f \<and> s' = s"
proof (induction t arbitrary: t')
  case Undefined
  then show ?case by simp
next
  case (Node l c r)
  show ?case
  proof (cases "cmpLT (cmp k (key c))")
    case True
    with Node.prems(2) obtain l' where
      1: "getNodeOrCompute_rec this cmp l k compute f s = Inr (l', h, f', s')"
      and 2: "balance (update l' c r) = Inr t'"
      by (auto split: sum.splits)
    from True Node.prems(1) have "getNode_loop cmp k l = Some e" by simp
    from Node.IH(1) [OF this 1] balance_contents [OF 2] show ?thesis by simp
  next
    case False
    show ?thesis
    proof (cases "cmpGT (cmp k (key c))")
      case True
      with False Node.prems(2) obtain r' where
        1: "getNodeOrCompute_rec this cmp r k compute f s = Inr (r', h, f', s')"
        and 2: "balance (update l c r') = Inr t'"
        by (auto split: sum.splits)
      from True False Node.prems(1) have "getNode_loop cmp k r = Some e" by simp
      from Node.IH(2) [OF this 1] balance_contents [OF 2] show ?thesis by simp
    next
      case F2: False
      with False Node.prems show ?thesis by auto
    qed
  qed
qed

lemma ins_absent:
  assumes t: "total_order cmp"
  shows "getNode_loop cmp k t = None \<Longrightarrow> bst cmp t \<Longrightarrow>
   getNodeOrCompute_rec this cmp t k compute f s = Inr (t', h, f', s') \<Longrightarrow>
   placed cmp (entry_new this f k (fst (compute s))) (contents t) (contents t') \<and>
   h = f \<and> f' = Suc f \<and> s' = snd (compute s)"
proof (induction t arbitrary: t')
  case Undefined
  then show ?case by (auto simp: placed_empty split: prod.splits)
next
  case (Node l c r)
  let ?e = "entry_new this f k (fst (compute s))"
  have ke: "key ?e = k" by (simp add: entry_new_def)
  note b = bst_NodeD [OF t Node.prems(2)]
  show ?case
  proof (cases "cmpLT (cmp k (key c))")
    case True
    with Node.prems(3) obtain l' where
      1: "getNodeOrCompute_rec this cmp l k compute f s = Inr (l', h, f', s')"
      and 2: "balance (update l' c r) = Inr t'"
      by (auto split: sum.splits)
    from True Node.prems(1) have "getNode_loop cmp k l = None" by simp
    from Node.IH(1) [OF this b(1) 1]
    have p: "placed cmp ?e (contents l) (contents l')" and r: "h = f \<and> f' = Suc f \<and> s' = snd (compute s)"
      by simp_all
    have "before cmp (key ?e) (key (stored c))" using True ke by (simp add: before_def cmpLT_def)
    from placed_left [OF t p this, of "contents r"] b(4) balance_contents [OF 2] r
    show ?thesis by simp
  next
    case False
    show ?thesis
    proof (cases "cmpGT (cmp k (key c))")
      case True
      with False Node.prems(3) obtain r' where
        1: "getNodeOrCompute_rec this cmp r k compute f s = Inr (r', h, f', s')"
        and 2: "balance (update l c r') = Inr t'"
        by (auto split: sum.splits)
      from True False Node.prems(1) have "getNode_loop cmp k r = None" by simp
      from Node.IH(2) [OF this b(2) 1]
      have p: "placed cmp ?e (contents r) (contents r')" and r: "h = f \<and> f' = Suc f \<and> s' = snd (compute s)"
        by simp_all
      have "before cmp (key (stored c)) (key ?e)"
        using True ke to_sym [OF t, of "key c" k] by (simp add: before_def cmpGT_def)
      from placed_right [OF t p this, of "contents l"] b(3) balance_contents [OF 2] r
      show ?thesis by simp
    next
      case F2: False
      with False Node.prems show ?thesis by simp
    qed
  qed
qed


subsection \<open>Lookup\<close>

lemma getNode_loop_SomeD:
  "getNode_loop cmp k t = Some e \<Longrightarrow> e \<in> set (iterator t) \<and> cmp k (key e) = 0"
  by (induction t) (auto simp: cmpLT_def cmpGT_def Let_def split: if_splits)

lemma getNode_loop_found:
  assumes t: "total_order cmp"
  shows "bst cmp t \<Longrightarrow> e \<in> set (iterator t) \<Longrightarrow> cmp k (key e) = 0 \<Longrightarrow>
    getNode_loop cmp k t = Some e"
proof (induction t)
  case Undefined
  then show ?case by simp
next
  case (Node l c r)
  from Node.prems(1) have bl: "bst cmp l" and br: "bst cmp r"
    and lc: "\<forall>x \<in> set (iterator l). cmp (key x) (key c) < 0"
    and rc: "\<forall>x \<in> set (iterator r). 0 < cmp (key x) (key c)"
    by (auto simp: cmpLT_def cmpGT_def)
  have ke: "cmp k (key e) \<le> 0" "cmp (key e) k \<le> 0"
    using Node.prems(3) to_eq_sym [OF t, of k "key e"] by simp_all
  consider "e \<in> set (iterator l)" | "e = c" | "e \<in> set (iterator r)" "e \<notin> set (iterator l)" "e \<noteq> c"
    using Node.prems(2) by auto
  then show ?case
  proof cases
    case 1
    with lc have "cmp (key e) (key c) < 0" by blast
    with ke(1) have "cmp k (key c) < 0" using to_le_lt [OF t] by blast
    with Node.IH(1) [OF bl 1 Node.prems(3)] show ?thesis by (simp add: cmpLT_def)
  next
    case 2
    with Node.prems(3) show ?thesis by (simp add: cmpLT_def cmpGT_def)
  next
    case 3
    with rc have "0 < cmp (key e) (key c)" by blast
    then have "cmp (key c) (key e) < 0" using to_sym [OF t] by simp
    with ke(2) have "cmp (key c) k < 0" using to_lt_le [OF t] by blast
    then have "0 < cmp k (key c)" using to_sym [OF t] by simp
    with Node.IH(2) [OF br 3(1) Node.prems(3)] show ?thesis by (simp add: cmpLT_def cmpGT_def)
  qed
qed

subsection \<open>Deletion\<close>

lemma kept_refl [simp]: "kept xs xs"
  by (simp add: kept_def list_all2_refl)

lemma kept_append: "kept as xs \<Longrightarrow> kept bs ys \<Longrightarrow> kept (as @ bs) (xs @ ys)"
  by (simp add: kept_def list_all2_appendI)

lemma kept_Cons: "z = x \<or> z = emancipate x \<Longrightarrow> kept bs ys \<Longrightarrow> kept (z # bs) (x # ys)"
  by (simp add: kept_def)

lemma stored_emancipate: "stored (emancipate c) = emancipate (stored c)"
  by (simp add: stored_def emancipate_def)

lemma smallest_None [simp]: "(getSmallestNode_loop t = None) = (t = Undefined)"
  by (induction t) auto

lemma largest_None [simp]: "(getLargestNode_loop t = None) = (t = Undefined)"
  by (induction t) auto

lemma dS_safe:
  "safe t \<Longrightarrow> \<exists>t' d s'. deleteSmallestNode_rec t cond s = Inr (t', d, s') \<and> safe t'"
proof (induction t)
  case Undefined
  show ?case by simp
next
  case (Node l c r)
  from Node.prems have sl: "safe l" and sr: "safe r" by auto
  show ?case
  proof (cases "l = Undefined")
    case True
    with Node.prems sr show ?thesis by (auto split: prod.splits)
  next
    case False
    from Node.IH(1) [OF sl] obtain l' d s' where
      1: "deleteSmallestNode_rec l cond s = Inr (l', d, s')" and 2: "safe l'" by blast
    from balance_update_safe [OF 2 sr] obtain n where "balance (update l' c r) = Inr n" "safe n"
      by blast
    with False 1 show ?thesis by simp
  qed
qed

lemma dL_safe:
  "safe t \<Longrightarrow> \<exists>t' d s'. deleteLargestNode_rec t cond s = Inr (t', d, s') \<and> safe t'"
proof (induction t)
  case Undefined
  show ?case by simp
next
  case (Node l c r)
  from Node.prems have sl: "safe l" and sr: "safe r" by auto
  show ?case
  proof (cases "r = Undefined")
    case True
    with Node.prems sl show ?thesis by (auto split: prod.splits)
  next
    case False
    from Node.IH(2) [OF sr] obtain r' d s' where
      1: "deleteLargestNode_rec r cond s = Inr (r', d, s')" and 2: "safe r'" by blast
    from balance_update_safe [OF sl 2] obtain n where "balance (update l c r') = Inr n" "safe n"
      by blast
    with False 1 show ?thesis by simp
  qed
qed

lemma dS_contents:
  "getSmallestNode_loop t = Some e \<Longrightarrow> deleteSmallestNode_rec t cond s = Inr (t', d, s') \<Longrightarrow>
   s' = snd (cond e s) \<and>
   (if fst (cond e s) then d = Some (emancipate e) \<and> contents t = stored e # contents t'
    else d = None \<and> contents t' = contents t)"
proof (induction t arbitrary: t')
  case Undefined
  then show ?case by simp
next
  case (Node l c r)
  show ?case
  proof (cases "l = Undefined")
    case True
    with Node.prems show ?thesis by (auto split: prod.splits if_splits)
  next
    case False
    with Node.prems(2) obtain l' where
      1: "deleteSmallestNode_rec l cond s = Inr (l', d, s')"
      and 2: "balance (update l' c r) = Inr t'"
      by (auto split: sum.splits)
    from False Node.prems(1) have "getSmallestNode_loop l = Some e" by simp
    from Node.IH(1) [OF this 1] balance_contents [OF 2] show ?thesis by (simp split: if_splits)
  qed
qed

lemma dL_contents:
  "getLargestNode_loop t = Some e \<Longrightarrow> deleteLargestNode_rec t cond s = Inr (t', d, s') \<Longrightarrow>
   s' = snd (cond e s) \<and>
   (if fst (cond e s) then d = Some (emancipate e) \<and> contents t = contents t' @ [stored e]
    else d = None \<and> contents t' = contents t)"
proof (induction t arbitrary: t')
  case Undefined
  then show ?case by simp
next
  case (Node l c r)
  show ?case
  proof (cases "r = Undefined")
    case True
    with Node.prems show ?thesis by (auto split: prod.splits if_splits)
  next
    case False
    with Node.prems(2) obtain r' where
      1: "deleteLargestNode_rec r cond s = Inr (r', d, s')"
      and 2: "balance (update l c r') = Inr t'"
      by (auto split: sum.splits)
    from False Node.prems(1) have "getLargestNode_loop r = Some e" by simp
    from Node.IH(2) [OF this 1] balance_contents [OF 2] show ?thesis by (simp split: if_splits)
  qed
qed


lemma dS_always:
  assumes "r \<noteq> Undefined" "deleteSmallestNode_rec r (\<lambda>n t. (True, t)) s = Inr (r', d, s')"
  shows "\<exists>e. d = Some (emancipate e) \<and> contents r = stored e # contents r' \<and> s' = s"
proof -
  from assms(1) obtain e where e: "getSmallestNode_loop r = Some e"
    by (cases "getSmallestNode_loop r") auto
  from dS_contents [OF e assms(2)] show ?thesis by auto
qed

lemma dN_safe:
  "safe t \<Longrightarrow> \<exists>t' d s'. deleteNode_rec cmp t k cond s = Inr (t', d, s') \<and> safe t'"
proof (induction t)
  case Undefined
  show ?case by simp
next
  case (Node l c r)
  from Node.prems have sl: "safe l" and sr: "safe r" by auto
  show ?case
  proof (cases "cmpLT (cmp k (key c))")
    case True
    from Node.IH(1) [OF sl] obtain l' d s' where
      1: "deleteNode_rec cmp l k cond s = Inr (l', d, s')" and 2: "safe l'" by blast
    from balance_update_safe [OF 2 sr] obtain n where "balance (update l' c r) = Inr n" "safe n"
      by blast
    with True 1 show ?thesis by simp
  next
    case False
    show ?thesis
    proof (cases "cmpGT (cmp k (key c))")
      case True
      from Node.IH(2) [OF sr] obtain r' d s' where
        1: "deleteNode_rec cmp r k cond s = Inr (r', d, s')" and 2: "safe r'" by blast
      from balance_update_safe [OF sl 2] obtain n where "balance (update l c r') = Inr n" "safe n"
        by blast
      with True False 1 show ?thesis by simp
    next
      case F2: False
      obtain ok s1 where c: "cond c s = (ok, s1)" by (cases "cond c s")
      show ?thesis
      proof (cases ok)
        case F3: False
        with False F2 c Node.prems show ?thesis by simp
      next
        case True
        consider "l \<noteq> Undefined" "r \<noteq> Undefined" | "l = Undefined" "r \<noteq> Undefined"
          | "l \<noteq> Undefined" "r = Undefined" | "l = Undefined" "r = Undefined" by blast
        then show ?thesis
        proof cases
          case 1
          from dS_safe [OF sr, of "\<lambda>n t. (True, t)" s1] obtain r' d s2 where
            a: "deleteSmallestNode_rec r (\<lambda>n t. (True, t)) s1 = Inr (r', d, s2)" and b: "safe r'"
            by blast
          from dS_always [OF 1(2) a] obtain e where d: "d = Some (emancipate e)" by blast
          from balance_update_safe [OF sl b] obtain n where
            "balance (update l (emancipate e) r') = Inr n" "safe n" by blast
          with False F2 c True 1 a d show ?thesis by simp
        next
          case 2
          from balance_safe [OF sr] obtain n where "balance r = Inr n" "safe n" by blast
          with False F2 c True 2 show ?thesis by simp
        next
          case 3
          from balance_safe [OF sl] obtain n where "balance l = Inr n" "safe n" by blast
          with False F2 c True 3 show ?thesis by simp
        next
          case 4
          with False F2 c True show ?thesis by simp
        qed
      qed
    qed
  qed
qed

lemma dN_absent:
  "getNode_loop cmp k t = None \<Longrightarrow> deleteNode_rec cmp t k cond s = Inr (t', d, s') \<Longrightarrow>
   contents t' = contents t \<and> d = None \<and> s' = s"
proof (induction t arbitrary: t')
  case Undefined
  then show ?case by simp
next
  case (Node l c r)
  show ?case
  proof (cases "cmpLT (cmp k (key c))")
    case True
    with Node.prems(2) obtain l' where
      1: "deleteNode_rec cmp l k cond s = Inr (l', d, s')"
      and 2: "balance (update l' c r) = Inr t'"
      by (auto split: sum.splits)
    from True Node.prems(1) have "getNode_loop cmp k l = None" by simp
    from Node.IH(1) [OF this 1] balance_contents [OF 2] show ?thesis by simp
  next
    case False
    show ?thesis
    proof (cases "cmpGT (cmp k (key c))")
      case True
      with False Node.prems(2) obtain r' where
        1: "deleteNode_rec cmp r k cond s = Inr (r', d, s')"
        and 2: "balance (update l c r') = Inr t'"
        by (auto split: sum.splits)
      from True False Node.prems(1) have "getNode_loop cmp k r = None" by simp
      from Node.IH(2) [OF this 1] balance_contents [OF 2] show ?thesis by simp
    next
      case F2: False
      with False Node.prems(1) show ?thesis by simp
    qed
  qed
qed

lemma dN_present:
  "getNode_loop cmp k t = Some e \<Longrightarrow> deleteNode_rec cmp t k cond s = Inr (t', d, s') \<Longrightarrow>
   s' = snd (cond e s) \<and>
   (if fst (cond e s)
    then d = Some (emancipate e) \<and>
         (\<exists>as bs. contents t = as @ stored e # bs \<and> kept (contents t') (as @ bs))
    else d = None \<and> contents t' = contents t)"
proof (induction t arbitrary: t')
  case Undefined
  then show ?case by simp
next
  case (Node l c r)
  show ?case
  proof (cases "cmpLT (cmp k (key c))")
    case True
    with Node.prems(2) obtain l' where
      1: "deleteNode_rec cmp l k cond s = Inr (l', d, s')"
      and 2: "balance (update l' c r) = Inr t'"
      by (auto split: sum.splits)
    from True Node.prems(1) have "getNode_loop cmp k l = Some e" by simp
    note ih = Node.IH(1) [OF this 1]
    note ct = balance_contents [OF 2]
    show ?thesis
    proof (cases "fst (cond e s)")
      case False
      with ih ct show ?thesis by simp
    next
      case T: True
      with ih obtain as bs where ab: "contents l = as @ stored e # bs" "kept (contents l') (as @ bs)"
        by auto
      have "contents (Node l c r) = as @ stored e # (bs @ stored c # contents r)"
        using ab(1) by simp
      moreover have "kept (contents t') (as @ (bs @ stored c # contents r))"
        using ct kept_append [OF ab(2), of "stored c # contents r" "stored c # contents r"] by simp
      ultimately have "\<exists>as bs. contents (Node l c r) = as @ stored e # bs \<and>
          kept (contents t') (as @ bs)" by blast
      with ih T show ?thesis by simp
    qed
  next
    case False
    show ?thesis
    proof (cases "cmpGT (cmp k (key c))")
      case True
      with False Node.prems(2) obtain r' where
        1: "deleteNode_rec cmp r k cond s = Inr (r', d, s')"
        and 2: "balance (update l c r') = Inr t'"
        by (auto split: sum.splits)
      from True False Node.prems(1) have "getNode_loop cmp k r = Some e" by simp
      note ih = Node.IH(2) [OF this 1]
      note ct = balance_contents [OF 2]
      show ?thesis
      proof (cases "fst (cond e s)")
        case F: False
        with ih ct show ?thesis by simp
      next
        case T: True
        with ih obtain as bs where ab: "contents r = as @ stored e # bs" "kept (contents r') (as @ bs)"
          by auto
        have "contents (Node l c r) = (contents l @ stored c # as) @ stored e # bs"
          using ab(1) by simp
        moreover have "kept (contents t') ((contents l @ stored c # as) @ bs)"
          using ct kept_append [OF kept_refl ab(2), of "contents l @ [stored c]"] by simp
        ultimately have "\<exists>as bs. contents (Node l c r) = as @ stored e # bs \<and>
            kept (contents t') (as @ bs)" by blast
        with ih T show ?thesis by simp
      qed
    next
      case F2: False
      with False Node.prems(1) have ec: "e = c" by simp
      obtain ok s1 where c: "cond c s = (ok, s1)" by (cases "cond c s")
      show ?thesis
      proof (cases ok)
        case F3: False
        with False F2 c ec Node.prems(2) show ?thesis by auto
      next
        case True
        consider "l \<noteq> Undefined" "r \<noteq> Undefined" | "l = Undefined" "r \<noteq> Undefined"
          | "l \<noteq> Undefined" "r = Undefined" | "l = Undefined" "r = Undefined" by blast
        then show ?thesis
        proof cases
          case 1
          with False F2 c True Node.prems(2) obtain r' sc s2 where
            a: "deleteSmallestNode_rec r (\<lambda>n t. (True, t)) s1 = Inr (r', Some sc, s2)"
            and b: "balance (update l sc r') = Inr t'" and d: "d = Some (emancipate c)" "s' = s2"
            by (auto split: sum.splits option.splits)
          from dS_always [OF 1(2) a] obtain e' where
            e': "sc = emancipate e'" "contents r = stored e' # contents r'" "s2 = s1" by auto
          have "kept (contents t') (contents l @ contents r)"
            using balance_contents [OF b] e'
            by (simp add: stored_emancipate kept_append kept_Cons)
          moreover have "contents (Node l c r) = contents l @ stored e # contents r"
            using ec by simp
          ultimately have "\<exists>as bs. contents (Node l c r) = as @ stored e # bs \<and>
              kept (contents t') (as @ bs)" by blast
          then show ?thesis using c True d ec e'(3) by simp
        next
          case 2
          with False F2 c True Node.prems(2) have
            b: "balance r = Inr t'" and d: "d = Some (emancipate c)" "s' = s1"
            by (auto split: sum.splits)
          have "kept (contents t') ([] @ contents r)" using balance_contents [OF b] by simp
          moreover have "contents (Node l c r) = [] @ stored e # contents r"
            using ec 2 by simp
          ultimately have "\<exists>as bs. contents (Node l c r) = as @ stored e # bs \<and>
              kept (contents t') (as @ bs)" by blast
          then show ?thesis using c True d ec by simp
        next
          case 3
          with False F2 c True Node.prems(2) have
            b: "balance l = Inr t'" and d: "d = Some (emancipate c)" "s' = s1"
            by (auto split: sum.splits)
          have "kept (contents t') (contents l @ [])" using balance_contents [OF b] by simp
          moreover have "contents (Node l c r) = contents l @ stored e # []"
            using ec 3 by simp
          ultimately have "\<exists>as bs. contents (Node l c r) = as @ stored e # bs \<and>
              kept (contents t') (as @ bs)" by blast
          then show ?thesis using c True d ec by simp
        next
          case 4
          with False F2 c True Node.prems(2) have
            d: "t' = Undefined" "d = Some (emancipate c)" "s' = s1" by auto
          have "kept (contents t') ([] @ [])" using d by simp
          moreover have "contents (Node l c r) = [] @ stored e # []"
            using ec 4 by simp
          ultimately have "\<exists>as bs. contents (Node l c r) = as @ stored e # bs \<and>
              kept (contents t') (as @ bs)" by blast
          then show ?thesis using c True d ec by simp
        qed
      qed
    qed
  qed
qed

section \<open>Sequences of entries\<close>

lemma kept_maps:
  assumes "kept zs xs"
  shows "map key zs = map key xs" "map nid zs = map nid xs" "map val zs = map val xs"
    and "\<forall>z \<in> set zs. sortedMap z = None \<or> z \<in> set xs"
proof -
  have a: "list_all2 (\<lambda>z x. z = x \<or> z = emancipate x) zs xs" using assms by (simp add: kept_def)
  then show "map key zs = map key xs"
    by (induction rule: list_all2_induct) (auto simp: emancipate_def)
  from a show "map nid zs = map nid xs"
    by (induction rule: list_all2_induct) (auto simp: emancipate_def)
  from a show "map val zs = map val xs"
    by (induction rule: list_all2_induct) (auto simp: emancipate_def)
  from a show "\<forall>z \<in> set zs. sortedMap z = None \<or> z \<in> set xs"
    by (induction rule: list_all2_induct) (auto simp: emancipate_def)
qed

lemma well_empty [simp]: "well cmp this f []"
  by (simp add: well_def)

lemma well_placed:
  assumes t: "total_order cmp" and w: "well cmp this f xs"
    and p: "placed cmp (entry_new this f k v) xs zs"
  shows "well cmp this (Suc f) zs"
proof -
  let ?e = "entry_new this f k v"
  from p obtain as bs where ab: "xs = as @ bs" "zs = as @ ?e # bs"
    "\<forall>a \<in> set as. before cmp (key a) (key ?e)" "\<forall>b \<in> set bs. before cmp (key ?e) (key b)"
    unfolding placed_def by blast
  from w ab(1) have s: "sorted_wrt (before cmp) (map key as)" "sorted_wrt (before cmp) (map key bs)"
    "\<forall>a \<in> set as. \<forall>b \<in> set bs. before cmp (key a) (key b)"
    and d: "distinct (map nid (as @ bs))"
    and n: "\<forall>e \<in> set (as @ bs). nid e < f \<and> (sortedMap e = None \<or> sortedMap e = Some this)"
    by (auto simp: well_def sorted_wrt_append)
  have 1: "sorted_wrt (before cmp) (map key zs)"
    using s ab(2,3,4) by (auto simp: sorted_wrt_append)
  have ne: "nid ?e = f" "sortedMap ?e = Some this" by (simp_all add: entry_new_def)
  have 2: "distinct (map nid zs)" using d n ne ab(2) by fastforce
  have 3: "\<forall>e \<in> set zs. nid e < Suc f \<and> (sortedMap e = None \<or> sortedMap e = Some this)"
    using n ne ab(2) by (auto simp: less_Suc_eq)
  from 1 2 3 show ?thesis by (simp add: well_def)
qed

lemma well_removed:
  assumes w: "well cmp this f (as @ e # bs)" and k: "kept zs (as @ bs)"
  shows "well cmp this f zs"
proof -
  note m = kept_maps [OF k]
  from w have "sorted_wrt (before cmp) (map key (as @ bs))" "distinct (map nid (as @ bs))"
    "\<forall>x \<in> set (as @ bs). nid x < f \<and> (sortedMap x = None \<or> sortedMap x = Some this)"
    by (auto simp: well_def sorted_wrt_append)
  moreover have "\<forall>z \<in> set zs. nid z < f"
  proof
    fix z assume "z \<in> set zs"
    then have "nid z \<in> set (map nid zs)" by simp
    then have "nid z \<in> set (map nid (as @ bs))" using m(2) by simp
    then show "nid z < f" using calculation(3) by auto
  qed
  ultimately show ?thesis using m unfolding well_def by metis
qed

lemma sorted_equiv:
  assumes t: "total_order cmp" and s: "sorted_wrt (before cmp) (map g1 xs)"
    and e: "\<forall>x \<in> set xs. cmp (g2 x) (g1 x) = 0"
  shows "sorted_wrt (before cmp) (map g2 xs)"
proof -
  have "\<And>x y. x \<in> set xs \<Longrightarrow> y \<in> set xs \<Longrightarrow> before cmp (g1 x) (g1 y) \<Longrightarrow> before cmp (g2 x) (g2 y)"
  proof -
    fix x y assume x: "x \<in> set xs" and y: "y \<in> set xs" and b: "before cmp (g1 x) (g1 y)"
    from e x have "cmp (g2 x) (g1 x) \<le> 0" by simp
    with b have "cmp (g2 x) (g1 y) < 0"
      using to_le_lt [OF t, of "g2 x" "g1 x" "g1 y"] by (simp add: before_def)
    moreover from e y have "cmp (g1 y) (g2 y) \<le> 0" using to_eq_sym [OF t, of "g2 y" "g1 y"] by simp
    ultimately show "before cmp (g2 x) (g2 y)"
      using to_lt_le [OF t, of "g2 x" "g1 y" "g2 y"] by (simp add: before_def)
  qed
  then have "sorted_wrt (\<lambda>x y. before cmp (g2 x) (g2 y)) xs"
    using s sorted_wrt_mono_rel [of xs "\<lambda>x y. before cmp (g1 x) (g1 y)" "\<lambda>x y. before cmp (g2 x) (g2 y)"]
    by (simp add: sorted_wrt_map)
  then show ?thesis by (simp add: sorted_wrt_map)
qed

lemma well_map:
  assumes t: "total_order cmp" and w: "well cmp this f xs"
    and g: "\<forall>c \<in> set xs. nid (g c) = nid c \<and> sortedMap (g c) = sortedMap c \<and> cmp (key (g c)) (key c) = 0"
  shows "well cmp this f (map g xs)"
proof -
  from w have s: "sorted_wrt (before cmp) (map key xs)" by (simp add: well_def)
  have 1: "sorted_wrt (before cmp) (map (\<lambda>c. key (g c)) xs)"
    using sorted_equiv [OF t s, of "\<lambda>c. key (g c)"] g by simp
  have 2: "map nid (map g xs) = map nid xs" using g by simp
  have d: "distinct (map nid (map g xs))" unfolding 2 using w by (simp add: well_def)
  have s': "sorted_wrt (before cmp) (map key (map g xs))" using 1 by (simp add: comp_def)
  have 3: "\<forall>e \<in> set (map g xs). nid e < f \<and> (sortedMap e = None \<or> sortedMap e = Some this)"
    using w g by (auto simp: well_def)
  show ?thesis unfolding well_def using s' d 3 by blast
qed

lemma well_rev:
  "well (reverseComparator cmp) this f (rev xs) = well cmp this f xs"
proof -
  have "before (reverseComparator cmp) = (\<lambda>a b. before cmp b a)"
    by (simp add: before_def reverseComparator_def fun_eq_iff)
  then show ?thesis by (simp add: well_def rev_map [symmetric] sorted_wrt_rev)
qed

section \<open>The public methods keep the invariant\<close>

lemma nids_contents: "map nid (contents t) = map nid (iterator t)"
  by (simp add: contents_def)

lemma nid_set_contents: "nid ` set (contents t) = nid ` set (iterator t)"
  using nids_contents [of t] by (metis list.set_map)

lemma invar_bst: "invar m \<Longrightarrow> bst (comparator m) (root m)"
  by (simp add: invar_def well_def bst_contents)

lemma invar_new: "total_order order \<Longrightarrow> invar (SortedMap_new i order)"
  by (simp add: invar_def SortedMap_new_def)

lemma iterator_modify:
  "iterator (modify h g t) = map (\<lambda>c. if nid c = h then g c else c) (iterator t)"
  by (induction t) auto

lemma contents_modify:
  assumes "\<And>c. stored (g c) = g (stored c)"
  shows "contents (modify h g t) = map (\<lambda>c. if nid c = h then g c else c) (contents t)"
  using assms by (simp add: contents_def iterator_modify comp_def if_distrib cong: if_cong)

lemma modify_Undefined [simp]: "(modify h g t = Undefined) = (t = Undefined)"
  by (cases t) auto

lemma safe_modify:
  assumes "\<And>c. depth (g c) = depth c \<and> balanceFactor (g c) = balanceFactor c"
  shows "safe (modify h g t) = safe t"
  using assms by (induction t) auto

lemma deref_SomeD: "deref h t = Some e \<Longrightarrow> e \<in> set (iterator t) \<and> nid e = h"
  by (induction t) (auto split: if_splits option.splits)

lemma deref_total: "h \<in> nid ` set (iterator t) \<Longrightarrow> \<exists>e. deref h t = Some e"
  by (induction t) (auto split: option.splits)

lemma the_node_total:
  "h \<in> nid ` set (contents (root m)) \<Longrightarrow>
   \<exists>e. the_node m h = Inr e \<and> e \<in> set (iterator (root m)) \<and> nid e = h"
proof -
  assume "h \<in> nid ` set (contents (root m))"
  then have "h \<in> nid ` set (iterator (root m))" by (simp add: nid_set_contents)
  from deref_total [OF this] obtain e where e: "deref h (root m) = Some e" by blast
  with deref_SomeD [OF e] show ?thesis by (simp add: the_node_def)
qed

lemma gNOC_invar:
  assumes i: "invar m"
  shows "\<exists>h m' s'. getNodeOrCompute m k compute s = Inr (h, m', s') \<and> invar m' \<and>
      mid m' = mid m \<and> comparator m' = comparator m \<and>
      h \<in> nid ` set (contents (root m')) \<and>
      (case getNode m k of
         Some e \<Rightarrow> h = nid e \<and> s' = s \<and> fresh m' = fresh m \<and>
                   contents (root m') = contents (root m)
       | None \<Rightarrow> h = fresh m \<and> s' = snd (compute s) \<and> fresh m' = Suc (fresh m) \<and>
                 placed (comparator m) (entry_new (mid m) (fresh m) k (fst (compute s)))
                   (contents (root m)) (contents (root m')))"
proof -
  from i have t: "total_order (comparator m)" and sf: "safe (root m)"
    and w: "well (comparator m) (mid m) (fresh m) (contents (root m))"
    by (simp_all add: invar_def)
  let ?e = "entry_new (mid m) (fresh m) k (fst (compute s))"
  show ?thesis
  proof (cases "root m = Undefined")
    case True
    obtain v s1 where c: "compute s = (v, s1)" by (cases "compute s")
    let ?m' = "m\<lparr>root := Node_new (fresh m) k v (mid m) Undefined Undefined, fresh := Suc (fresh m)\<rparr>"
    have g: "getNodeOrCompute m k compute s = Inr (fresh m, ?m', s1)"
      using True c by (simp add: getNodeOrCompute_def)
    have p: "placed (comparator m) ?e (contents (root m)) (contents (root ?m'))"
      using True c by (simp add: placed_empty)
    from well_placed [OF t w p] have "invar ?m'" using t by (simp add: invar_def)
    moreover have "fresh m \<in> nid ` set (contents (root ?m'))" by (simp add: entry_new_def)
    moreover have "getNode m k = None" using True by (simp add: getNode_def)
    ultimately show ?thesis using g p c by simp
  next
    case False
    from ins_safe [OF sf, of "mid m" "comparator m" k compute "fresh m" s]
    obtain t' h f' s' where
      r: "getNodeOrCompute_rec (mid m) (comparator m) (root m) k compute (fresh m) s = Inr (t', h, f', s')"
      and st: "safe t'" by blast
    let ?m' = "m\<lparr>root := t', fresh := f'\<rparr>"
    have g: "getNodeOrCompute m k compute s = Inr (h, ?m', s')"
      using False r by (simp add: getNodeOrCompute_def)
    show ?thesis
    proof (cases "getNode_loop (comparator m) k (root m)")
      case None
      from ins_absent [OF t None invar_bst [OF i] r]
      have p: "placed (comparator m) ?e (contents (root m)) (contents t')"
        and e: "h = fresh m" "f' = Suc (fresh m)" "s' = snd (compute s)" by simp_all
      from well_placed [OF t w p] e have "invar ?m'" using t st by (simp add: invar_def)
      moreover have "h \<in> nid ` set (contents (root ?m'))"
        using p e unfolding placed_def by (force simp: entry_new_def)
      ultimately show ?thesis using g p e None by (simp add: getNode_def)
    next
      case (Some e)
      from ins_present [OF Some r]
      have c: "contents t' = contents (root m)" and e: "h = nid e" "f' = fresh m" "s' = s" by simp_all
      have "invar ?m'" using c e t st w by (simp add: invar_def)
      moreover have "h \<in> nid ` set (contents (root ?m'))"
        using c e getNode_loop_SomeD [OF Some] by (simp add: nid_set_contents)
      ultimately show ?thesis using g c e Some by (simp add: getNode_def)
    qed
  qed
qed


lemma well_same_nid:
  "well cmp this f xs \<Longrightarrow> a \<in> set xs \<Longrightarrow> b \<in> set xs \<Longrightarrow> nid a = nid b \<Longrightarrow> a = b"
  by (auto simp: well_def distinct_map dest: inj_onD)

lemma stored_in: "e \<in> set (iterator t) \<Longrightarrow> stored e \<in> set (contents t)"
  by (simp add: contents_def)

lemma invar_same_nid:
  assumes "invar m" "a \<in> set (iterator (root m))" "stored b \<in> set (contents (root m))"
    "nid a = nid b"
  shows "stored a = stored b"
  using well_same_nid [of "comparator m" "mid m" "fresh m" "contents (root m)" "stored a" "stored b"]
    assms stored_in [OF assms(2)] by (simp add: invar_def)

lemma set_key_invar:
  assumes i: "invar m"
  shows "\<exists>e m'. set_key m k v rep = Inr (e, m') \<and> invar m' \<and>
      mid m' = mid m \<and> comparator m' = comparator m \<and> e \<in> set (iterator (root m')) \<and>
      (getNode m k = None \<or> rep \<longrightarrow> key e = k \<and> val e = v) \<and>
      (\<forall>e0. getNode m k = Some e0 \<longrightarrow> nid e = nid e0 \<and>
          (\<not> rep \<longrightarrow> key e = key e0 \<and> val e = val e0 \<and>
                    contents (root m') = contents (root m)))"
proof -
  let ?compute = "\<lambda>computed::bool. (v, True)"
  from gNOC_invar [OF i, of k ?compute False] obtain h m1 s1 where
    g: "getNodeOrCompute m k ?compute False = Inr (h, m1, s1)" and i1: "invar m1"
    and same: "mid m1 = mid m" "comparator m1 = comparator m"
    and hin: "h \<in> nid ` set (contents (root m1))"
    and cs: "case getNode m k of
         Some e \<Rightarrow> h = nid e \<and> s1 = False \<and> fresh m1 = fresh m \<and>
                   contents (root m1) = contents (root m)
       | None \<Rightarrow> h = fresh m \<and> s1 = snd (?compute False) \<and> fresh m1 = Suc (fresh m) \<and>
                 placed (comparator m) (entry_new (mid m) (fresh m) k (fst (?compute False)))
                   (contents (root m)) (contents (root m1))"
    by blast
  let ?g = "\<lambda>c::('a, 'b) cell. c\<lparr>key := k, val := v\<rparr>"
  show ?thesis
  proof (cases "getNode m k")
    case None
    with cs have h: "h = fresh m" and s1: "s1 = True"
      and p: "placed (comparator m) (entry_new (mid m) (fresh m) k v) (contents (root m)) (contents (root m1))"
      by simp_all
    from the_node_total [OF hin] obtain e where
      e: "the_node m1 h = Inr e" "e \<in> set (iterator (root m1))" "nid e = h" by blast
    have sk: "set_key m k v rep = Inr (e, m1)" using g s1 e(1) by (simp add: set_key_def)
    have "entry_new (mid m) (fresh m) k v \<in> set (contents (root m1))"
      using p unfolding placed_def by auto
    then have "stored (entry_new (mid m) (fresh m) k v) \<in> set (contents (root m1))"
      by (simp add: stored_def entry_new_def)
    from invar_same_nid [OF i1 e(2) this] e(3) h
    have "stored e = stored (entry_new (mid m) (fresh m) k v)" by (simp add: entry_new_def)
    then have "key (stored e) = k \<and> val (stored e) = v"
      by (simp add: entry_new_def stored_def)
    then have "key e = k \<and> val e = v" by simp
    with sk i1 same e(2) None show ?thesis by simp
  next
    case (Some e0)
    with cs have h: "h = nid e0" and s1: "s1 = False" and f: "fresh m1 = fresh m"
      and c: "contents (root m1) = contents (root m)" by simp_all
    from Some have e0: "e0 \<in> set (iterator (root m))" "comparator m k (key e0) = 0"
      using getNode_loop_SomeD [of "comparator m" k "root m" e0] by (simp_all add: getNode_def)
    show ?thesis
    proof (cases rep)
      case False
      from the_node_total [OF hin] obtain e where
        e: "the_node m1 h = Inr e" "e \<in> set (iterator (root m1))" "nid e = h" by blast
      have sk: "set_key m k v rep = Inr (e, m1)" using g s1 e(1) False by (simp add: set_key_def)
      have "stored e0 \<in> set (contents (root m1))" using c e0(1) by (simp add: stored_in)
      from invar_same_nid [OF i1 e(2) this] e(3) h have "stored e = stored e0" by simp
      then have "key (stored e) = key (stored e0) \<and> val (stored e) = val (stored e0)" by simp
      then have "key e = key e0 \<and> val e = val e0" by simp
      with sk i1 same e(2,3) h c Some False show ?thesis by simp
    next
      case True
      let ?m2 = "m1\<lparr>root := modify h ?g (root m1)\<rparr>"
      have c2: "contents (root ?m2) = map (\<lambda>c. if nid c = h then ?g c else c) (contents (root m1))"
        by (simp add: contents_modify stored_def)
      have it2: "iterator (root ?m2) = map (\<lambda>c. if nid c = h then ?g c else c) (iterator (root m1))"
        by (simp add: iterator_modify)
      from i1 have t: "total_order (comparator m1)" and sf: "safe (root m1)"
        and w: "well (comparator m1) (mid m1) (fresh m1) (contents (root m1))"
        by (simp_all add: invar_def)
      have "\<forall>c \<in> set (contents (root m1)). nid c = h \<longrightarrow> comparator m1 k (key c) = 0"
      proof (intro ballI impI)
        fix c assume cin: "c \<in> set (contents (root m1))" and n: "nid c = h"
        have "stored e0 \<in> set (contents (root m1))" using c e0(1) by (simp add: stored_in)
        from well_same_nid [OF w cin this] n h have "c = stored e0" by simp
        then show "comparator m1 k (key c) = 0" using e0(2) same by simp
      qed
      then have "\<forall>c \<in> set (contents (root m1)).
          nid ((\<lambda>c. if nid c = h then ?g c else c) c) = nid c \<and>
          sortedMap ((\<lambda>c. if nid c = h then ?g c else c) c) = sortedMap c \<and>
          comparator m1 (key ((\<lambda>c. if nid c = h then ?g c else c) c)) (key c) = 0"
        using to_refl [OF t] by simp
      from well_map [OF t w this] c2
      have w2: "well (comparator m1) (mid m1) (fresh m1) (contents (root ?m2))" by simp
      have sf2: "safe (root ?m2)" using sf by (simp add: safe_modify)
      have i2: "invar ?m2" using t w2 sf2 by (simp add: invar_def)
      have "map nid (contents (root ?m2)) = map nid (contents (root m1))"
        unfolding c2 by (simp add: comp_def if_distrib)
      then have "nid ` set (contents (root ?m2)) = nid ` set (contents (root m1))"
        by (metis list.set_map)
      with hin have "h \<in> nid ` set (contents (root ?m2))" by simp
      from the_node_total [OF this] obtain e where
        e: "the_node ?m2 h = Inr e" "e \<in> set (iterator (root ?m2))" "nid e = h" by blast
      have sk: "set_key m k v rep = Inr (e, ?m2)"
        using g s1 e(1) True by (simp add: set_key_def)
      from e(2) have "e \<in> (\<lambda>c. if nid c = h then ?g c else c) ` set (iterator (root m1))"
        unfolding it2 by simp
      then obtain c0 where "e = (if nid c0 = h then ?g c0 else c0)" by blast
      with e(3) have "key e = k \<and> val e = v" by (auto split: if_splits)
      with sk i2 same e(2,3) h Some True show ?thesis by simp
    qed
  qed
qed

lemma getEntryOrCompute_invar:
  assumes i: "invar m"
  shows "\<exists>e m' s'. getEntryOrCompute m k compute s = Inr (e, m', s') \<and> invar m' \<and>
      getNodeOrCompute m k compute s = Inr (nid e, m', s') \<and> e \<in> set (iterator (root m'))"
proof -
  from gNOC_invar [OF i, of k compute s] obtain h m1 s1 where
    g: "getNodeOrCompute m k compute s = Inr (h, m1, s1)" and i1: "invar m1"
    and hin: "h \<in> nid ` set (contents (root m1))" by blast
  from the_node_total [OF hin] obtain e where
    e: "the_node m1 h = Inr e" "e \<in> set (iterator (root m1))" "nid e = h" by blast
  from g e i1 show ?thesis by (simp add: getEntryOrCompute_def)
qed

lemma getOrCompute_invar:
  assumes i: "invar m"
  shows "\<exists>v m' s'. getOrCompute m k compute s = Inr (v, m', s') \<and> invar m'"
  using getEntryOrCompute_invar [OF i, of k compute s] by (auto simp: getOrCompute_def)

lemma well_tail: "well cmp this f (e # xs) \<Longrightarrow> well cmp this f xs"
  using well_removed [of cmp this f "[]" e xs xs] by simp

lemma well_butlast: "well cmp this f (xs @ [e]) \<Longrightarrow> well cmp this f xs"
  using well_removed [of cmp this f xs e "[]" xs] by simp

lemma delete_invar:
  assumes i: "invar m"
  shows "\<exists>d m' s'. delete m k cond s = Inr (d, m', s') \<and> invar m'"
proof -
  from i have t: "total_order (comparator m)" and sf: "safe (root m)"
    and w: "well (comparator m) (mid m) (fresh m) (contents (root m))"
    by (simp_all add: invar_def)
  let ?c = "condition_or_default cond"
  from dN_safe [OF sf, of "comparator m" k ?c s] obtain t' d s' where
    r: "deleteNode_rec (comparator m) (root m) k ?c s = Inr (t', d, s')" and st: "safe t'" by blast
  have dl: "delete m k cond s = Inr (d, m\<lparr>root := t'\<rparr>, s')" using r by (simp add: delete_def)
  have "well (comparator m) (mid m) (fresh m) (contents t')"
  proof (cases "getNode_loop (comparator m) k (root m)")
    case None
    from dN_absent [OF None r] w show ?thesis by simp
  next
    case (Some e)
    note p = dN_present [OF Some r]
    show ?thesis
    proof (cases "fst (?c e s)")
      case False
      with p w show ?thesis by simp
    next
      case True
      with p obtain as bs where "contents (root m) = as @ stored e # bs" "kept (contents t') (as @ bs)"
        by auto
      with w well_removed [of "comparator m" "mid m" "fresh m" as "stored e" bs "contents t'"]
      show ?thesis by simp
    qed
  qed
  with t st have "invar (m\<lparr>root := t'\<rparr>)" by (simp add: invar_def)
  with dl show ?thesis by blast
qed

lemma deleteSmallest_invar:
  assumes i: "invar m"
  shows "\<exists>d m' s'. deleteSmallest m cond s = Inr (d, m', s') \<and> invar m'"
proof -
  from i have t: "total_order (comparator m)" and sf: "safe (root m)"
    and w: "well (comparator m) (mid m) (fresh m) (contents (root m))"
    by (simp_all add: invar_def)
  let ?c = "condition_or_default cond"
  from dS_safe [OF sf, of ?c s] obtain t' d s' where
    r: "deleteSmallestNode_rec (root m) ?c s = Inr (t', d, s')" and st: "safe t'" by blast
  have dl: "deleteSmallest m cond s = Inr (d, m\<lparr>root := t'\<rparr>, s')"
    using r by (simp add: deleteSmallest_def)
  have "well (comparator m) (mid m) (fresh m) (contents t')"
  proof (cases "getSmallestNode_loop (root m)")
    case None
    with r show ?thesis by simp
  next
    case (Some e)
    from dS_contents [OF Some r] w well_tail [of "comparator m" "mid m" "fresh m" "stored e" "contents t'"]
    show ?thesis by (auto split: if_splits)
  qed
  with t st have "invar (m\<lparr>root := t'\<rparr>)" by (simp add: invar_def)
  with dl show ?thesis by blast
qed

lemma deleteLargest_invar:
  assumes i: "invar m"
  shows "\<exists>d m' s'. deleteLargest m cond s = Inr (d, m', s') \<and> invar m'"
proof -
  from i have t: "total_order (comparator m)" and sf: "safe (root m)"
    and w: "well (comparator m) (mid m) (fresh m) (contents (root m))"
    by (simp_all add: invar_def)
  let ?c = "condition_or_default cond"
  from dL_safe [OF sf, of ?c s] obtain t' d s' where
    r: "deleteLargestNode_rec (root m) ?c s = Inr (t', d, s')" and st: "safe t'" by blast
  have dl: "deleteLargest m cond s = Inr (d, m\<lparr>root := t'\<rparr>, s')"
    using r by (simp add: deleteLargest_def)
  have "well (comparator m) (mid m) (fresh m) (contents t')"
  proof (cases "getLargestNode_loop (root m)")
    case None
    with r show ?thesis by simp
  next
    case (Some e)
    from dL_contents [OF Some r] w well_butlast [of "comparator m" "mid m" "fresh m" "contents t'" "stored e"]
    show ?thesis by (auto split: if_splits)
  qed
  with t st have "invar (m\<lparr>root := t'\<rparr>)" by (simp add: invar_def)
  with dl show ?thesis by blast
qed

lemma modify_invar:
  assumes i: "invar m" and e: "e \<in> set (iterator (root m))"
    and g: "\<And>c. stored (g c) = g (stored c)"
      "\<And>c. depth (g c) = depth c \<and> balanceFactor (g c) = balanceFactor c"
      "\<And>c. nid (g c) = nid c \<and> sortedMap (g c) = sortedMap c"
    and k: "comparator m (key (g (stored e))) (key e) = 0"
  shows "invar (m\<lparr>root := modify (nid e) g (root m)\<rparr>)"
proof -
  from i have t: "total_order (comparator m)" and sf: "safe (root m)"
    and w: "well (comparator m) (mid m) (fresh m) (contents (root m))"
    by (simp_all add: invar_def)
  let ?f = "\<lambda>c. if nid c = nid e then g c else c"
  have c2: "contents (modify (nid e) g (root m)) = map ?f (contents (root m))"
    using g(1) by (rule contents_modify)
  have "\<forall>c \<in> set (contents (root m)).
      nid (?f c) = nid c \<and> sortedMap (?f c) = sortedMap c \<and> comparator m (key (?f c)) (key c) = 0"
  proof
    fix c assume cin: "c \<in> set (contents (root m))"
    show "nid (?f c) = nid c \<and> sortedMap (?f c) = sortedMap c \<and> comparator m (key (?f c)) (key c) = 0"
    proof (cases "nid c = nid e")
      case True
      from well_same_nid [OF w cin stored_in [OF e]] True have "c = stored e" by simp
      with True g(3) k show ?thesis by simp
    next
      case False
      then show ?thesis using to_refl [OF t] by simp
    qed
  qed
  from well_map [OF t w this] c2
  have "well (comparator m) (mid m) (fresh m) (contents (modify (nid e) g (root m)))" by simp
  moreover have "safe (modify (nid e) g (root m))" using sf g(2) by (simp add: safe_modify)
  ultimately show ?thesis using t by (simp add: invar_def)
qed

lemma reKey_invar:
  assumes i: "invar m" and g: "genuine m e"
  shows "invar (snd (reKey m e k))"
proof (cases "fst (reKey m e k)")
  case False
  then have "snd (reKey m e k) = m" by (auto simp: reKey_def split: if_splits)
  with i show ?thesis by simp
next
  case True
  then have o: "sortedMap e = Some (mid m)" and c: "comparator m k (key e) = 0"
    and r: "snd (reKey m e k) = m\<lparr>root := modify (nid e) (\<lambda>c. c\<lparr>key := k\<rparr>) (root m)\<rparr>"
    by (auto simp: reKey_def cmpNQ_def split: if_splits)
  from o g have e: "e \<in> set (iterator (root m))" by (simp add: genuine_def)
  show ?thesis unfolding r
    by (rule modify_invar [OF i e]) (simp_all add: stored_def c)
qed

lemma reValue_invar:
  assumes i: "invar m" and g: "genuine m e"
  shows "invar (snd (reValue m e v))"
proof (cases "fst (reValue m e v)")
  case False
  then have "snd (reValue m e v) = m" by (auto simp: reValue_def split: if_splits)
  with i show ?thesis by simp
next
  case True
  then have o: "sortedMap e = Some (mid m)"
    and r: "snd (reValue m e v) = m\<lparr>root := modify (nid e) (\<lambda>c. c\<lparr>val := v\<rparr>) (root m)\<rparr>"
    by (auto simp: reValue_def split: if_splits)
  from o g have e: "e \<in> set (iterator (root m))" by (simp add: genuine_def)
  from i have t: "total_order (comparator m)" by (simp add: invar_def)
  show ?thesis unfolding r
    by (rule modify_invar [OF i e]) (simp_all add: stored_def to_refl [OF t])
qed

lemma contents_invert: "contents (invert_rec t) = rev (contents t)"
  by (induction t) (simp_all add: stored_def)

lemma depth_of_invert [simp]: "depth_of (invert_rec t) = depth_of t"
  by (cases t) simp_all

lemma invert_Undefined [simp]: "(invert_rec t = Undefined) = (t = Undefined)"
  by (cases t) simp_all

lemma safe_invert: "safe t \<Longrightarrow> safe (invert_rec t)"
proof (induction t)
  case Undefined
  show ?case by simp
next
  case (Node l c r)
  from Node.prems have sl: "safe l" and sr: "safe r" and d: "1 \<le> depth c" by auto
  have "depth_of l - depth_of r < - 1 \<Longrightarrow> r \<noteq> Undefined"
    using depth_of_nonneg [OF sl] by (cases r) auto
  moreover have "1 < depth_of l - depth_of r \<Longrightarrow> l \<noteq> Undefined"
    using depth_of_nonneg [OF sr] by (cases l) auto
  ultimately show ?case using Node.IH sl sr d by (simp add: calcBalanceFactor_def)
qed

lemma reverse_invar: "invar m \<Longrightarrow> invar (reverse m)"
  by (simp add: invar_def reverse_def to_reverse safe_invert contents_invert well_rev)

lemma clear_invar: "invar m \<Longrightarrow> invar (clear m)"
  by (simp add: invar_def clear_def)

lemma reach_invar: "reach m s \<Longrightarrow> invar m"
proof (induction rule: reach.induct)
  case (new order i s)
  then show ?case by (rule invar_new)
next
  case (caller m s s')
  then show ?case by simp
next
  case (set_key m s k v replace e m')
  with set_key_invar [OF set_key.IH, of k v replace] show ?case by auto
next
  case (getEntryOrCompute m s k compute e m' s')
  with getEntryOrCompute_invar [OF getEntryOrCompute.IH, of k compute s] show ?case by auto
next
  case (getOrCompute m s k compute v m' s')
  with getOrCompute_invar [OF getOrCompute.IH, of k compute s] show ?case by auto
next
  case (delete m s k cond d m' s')
  with delete_invar [OF delete.IH, of k cond s] show ?case by auto
next
  case (deleteSmallest m s cond d m' s')
  with deleteSmallest_invar [OF deleteSmallest.IH, of cond s] show ?case by auto
next
  case (deleteLargest m s cond d m' s')
  with deleteLargest_invar [OF deleteLargest.IH, of cond s] show ?case by auto
next
  case (reKey m s e k ok m')
  with reKey_invar [OF reKey.IH reKey.hyps(2), of k] show ?case by simp
next
  case (reValue m s e v ok m')
  with reValue_invar [OF reValue.IH reValue.hyps(2), of v] show ?case by simp
next
  case (reverse m s)
  then show ?case by (simp add: reverse_invar)
next
  case (clear m s)
  then show ?case by (simp add: clear_invar)
qed

section \<open>Range queries\<close>

lemma satisfies_min_tooSmall:
  "plain shape mn \<Longrightarrow> satisfies_min cmp mn k = (\<not> tooSmall cmp shape mn k)"
  by (cases mn) (auto simp: plain_def satisfies_min_def tooSmall_def cmpLT_def cmpLE_def)

lemma satisfies_max_tooBig:
  "plain shape mx \<Longrightarrow> satisfies_max cmp mx k = (\<not> tooBig cmp shape mx k)"
  by (cases mx) (auto simp: plain_def satisfies_max_def tooBig_def cmpGT_def cmpGE_def)

lemma tooSmall_below:
  assumes t: "total_order cmp" and u: "upward cmp mn" and p: "plain shape mn"
    and s: "tooSmall cmp shape mn b" and ab: "cmp a b \<le> 0"
  shows "tooSmall cmp shape mn a"
proof (cases mn)
  case Unbounded
  with s show ?thesis by (simp add: tooSmall_def)
next
  case (Bare x)
  with p have px: "shape x = Plain" by (simp add: plain_def)
  with s Bare have "cmp b x < 0" by (simp add: tooSmall_def cmpLT_def)
  with ab have "cmp a x < 0" using to_le_lt [OF t] by blast
  with Bare px show ?thesis by (simp add: tooSmall_def cmpLT_def)
next
  case (Tuple x ty)
  show ?thesis
  proof (cases "ty = Some Exclusive")
    case True
    with s Tuple have "cmp b x \<le> 0" by (simp add: tooSmall_def cmpLE_def)
    with ab have "cmp a x \<le> 0" using to_le_trans [OF t] by blast
    with Tuple True show ?thesis by (simp add: tooSmall_def cmpLE_def)
  next
    case False
    with s Tuple have "cmp b x < 0" by (simp add: tooSmall_def cmpLT_def)
    with ab have "cmp a x < 0" using to_le_lt [OF t] by blast
    with Tuple False show ?thesis by (simp add: tooSmall_def cmpLT_def)
  qed
next
  case (Pred p)
  with s u ab show ?thesis by (auto simp: tooSmall_def upward_def)
qed

lemma tooBig_above:
  assumes t: "total_order cmp" and u: "downward cmp mx" and p: "plain shape mx"
    and s: "tooBig cmp shape mx a" and ab: "cmp a b \<le> 0"
  shows "tooBig cmp shape mx b"
proof -
  have ge: "\<And>x y. (0 \<le> cmp x y) = (cmp y x \<le> 0)" using to_ge [OF t] by simp
  have gt: "\<And>x y. (0 < cmp x y) = (cmp y x < 0)" using to_sym [OF t] by simp
  show ?thesis
  proof (cases mx)
    case Unbounded
    with s show ?thesis by (simp add: tooBig_def)
  next
    case (Bare x)
    with p have px: "shape x = Plain" by (simp add: plain_def)
    with s Bare have "cmp x a < 0" by (simp add: tooBig_def cmpGT_def gt)
    with ab have "cmp x b < 0" using to_lt_le [OF t] by blast
    with Bare px show ?thesis by (simp add: tooBig_def cmpGT_def gt)
  next
    case (Tuple x ty)
    show ?thesis
    proof (cases "ty = Some Exclusive")
      case True
      with s Tuple have "cmp x a \<le> 0" by (simp add: tooBig_def cmpGE_def ge)
      with ab have "cmp x b \<le> 0" using to_le_trans [OF t] by blast
      with Tuple True show ?thesis by (simp add: tooBig_def cmpGE_def ge)
    next
      case False
      with s Tuple have "cmp x a < 0" by (simp add: tooBig_def cmpGT_def gt)
      with ab have "cmp x b < 0" using to_lt_le [OF t] by blast
      with Tuple False show ?thesis by (simp add: tooBig_def cmpGT_def gt)
    qed
  next
    case (Pred p)
    with s u ab show ?thesis by (auto simp: tooBig_def downward_def)
  qed
qed

lemma in_range_iff:
  "plain shape mn \<Longrightarrow> plain shape mx \<Longrightarrow>
   in_range cmp mn mx e = (\<not> tooSmall cmp shape mn (key e) \<and> \<not> tooBig cmp shape mx (key e))"
  by (simp add: in_range_def satisfies_min_tooSmall satisfies_max_tooBig)

lemma range_forward:
  assumes t: "total_order cmp" and u: "upward cmp mn" and d: "downward cmp mx"
    and pn: "plain shape mn" and px: "plain shape mx"
  shows "bst cmp t \<Longrightarrow>
    getRange_recur cmp shape mn mx False t = filter (in_range cmp mn mx) (iterator t)"
proof (induction t)
  case Undefined
  show ?case by simp
next
  case (Node l c r)
  from Node.prems have bl: "bst cmp l" and br: "bst cmp r"
    and lc: "\<forall>x \<in> set (iterator l). cmp (key x) (key c) < 0"
    and rc: "\<forall>x \<in> set (iterator r). 0 < cmp (key x) (key c)"
    by (auto simp: cmpLT_def cmpGT_def)
  have small: "tooSmall cmp shape mn (key c) \<Longrightarrow> filter (in_range cmp mn mx) (iterator l) = []"
  proof -
    assume s: "tooSmall cmp shape mn (key c)"
    have "\<forall>x \<in> set (iterator l). tooSmall cmp shape mn (key x)"
      using lc tooSmall_below [OF t u pn s] by force
    then show ?thesis by (simp add: in_range_iff [OF pn px] filter_empty_conv)
  qed
  have big: "tooBig cmp shape mx (key c) \<Longrightarrow> filter (in_range cmp mn mx) (iterator r) = []"
  proof -
    assume s: "tooBig cmp shape mx (key c)"
    have "\<forall>x \<in> set (iterator r). cmp (key c) (key x) \<le> 0"
      using rc to_sym [OF t] by force
    then have "\<forall>x \<in> set (iterator r). tooBig cmp shape mx (key x)"
      using tooBig_above [OF t d px s] by blast
    then show ?thesis by (simp add: in_range_iff [OF pn px] filter_empty_conv)
  qed
  have here: "in_range cmp mn mx c = (\<not> tooSmall cmp shape mn (key c) \<and> \<not> tooBig cmp shape mx (key c))"
    by (rule in_range_iff [OF pn px])
  show ?case using Node.IH(1) [OF bl] Node.IH(2) [OF br] small big
    by (simp add: Let_def here)
qed

lemma range_reversed:
  assumes t: "total_order cmp" and u: "upward cmp mn" and d: "downward cmp mx"
    and pn: "plain shape mn" and px: "plain shape mx"
  shows "bst cmp t \<Longrightarrow>
    getRange_recur cmp shape mn mx True t = rev (filter (in_range cmp mn mx) (iterator t))"
proof (induction t)
  case Undefined
  show ?case by simp
next
  case (Node l c r)
  from Node.prems have bl: "bst cmp l" and br: "bst cmp r"
    and lc: "\<forall>x \<in> set (iterator l). cmp (key x) (key c) < 0"
    and rc: "\<forall>x \<in> set (iterator r). 0 < cmp (key x) (key c)"
    by (auto simp: cmpLT_def cmpGT_def)
  have small: "tooSmall cmp shape mn (key c) \<Longrightarrow> filter (in_range cmp mn mx) (iterator l) = []"
  proof -
    assume s: "tooSmall cmp shape mn (key c)"
    have "\<forall>x \<in> set (iterator l). tooSmall cmp shape mn (key x)"
      using lc tooSmall_below [OF t u pn s] by force
    then show ?thesis by (simp add: in_range_iff [OF pn px] filter_empty_conv)
  qed
  have big: "tooBig cmp shape mx (key c) \<Longrightarrow> filter (in_range cmp mn mx) (iterator r) = []"
  proof -
    assume s: "tooBig cmp shape mx (key c)"
    have "\<forall>x \<in> set (iterator r). cmp (key c) (key x) \<le> 0"
      using rc to_sym [OF t] by force
    then have "\<forall>x \<in> set (iterator r). tooBig cmp shape mx (key x)"
      using tooBig_above [OF t d px s] by blast
    then show ?thesis by (simp add: in_range_iff [OF pn px] filter_empty_conv)
  qed
  have here: "in_range cmp mn mx c = (\<not> tooSmall cmp shape mn (key c) \<and> \<not> tooBig cmp shape mx (key c))"
    by (rule in_range_iff [OF pn px])
  show ?case using Node.IH(1) [OF bl] Node.IH(2) [OF br] small big
    by (simp add: Let_def here)
qed

lemma sorted_filter_keys:
  "sorted_wrt P (map key xs) \<Longrightarrow> sorted_wrt P (map key (filter Q xs))"
  by (induction xs) auto

section \<open>The scenario maps\<close>

lemmas run_defs = set_key_def getNodeOrCompute_def the_node_def Node_new_def update_def
  refresh_def calcDepth_def calcNodeCount_def calcBalanceFactor_def cmpLT_def cmpGT_def
  SortedMap_new_def Let_def keyed_def

lemma sevenKeys_built:
  "set_all (SortedMap_new 0 autoComparator) (keyed [5, 3, 8, 1, 4, 7, 9]) = Inr sevenKeys"
  unfolding sevenKeys_def by (simp add: run_defs)

lemma zigzag_built:
  "set_all (SortedMap_new 0 autoComparator) (keyed [3, 1, 2]) = Inr zigzag"
  unfolding zigzag_def by (simp add: run_defs)

lemma ascending_built:
  "set_all (SortedMap_new 0 autoComparator) (keyed [1, 2, 3]) = Inr ascending"
  unfolding ascending_def by (simp add: run_defs)

lemma sevenKeys_root:
  "root sevenKeys =
     Node (Node (Node Undefined \<lparr>nid = 3, key = 1, val = Some 1, sortedMap = Some 0, depth = 1, nodeCount = 1, balanceFactor = 0\<rparr> Undefined)
             \<lparr>nid = 1, key = 3, val = Some 3, sortedMap = Some 0, depth = 2, nodeCount = 3, balanceFactor = 0\<rparr>
             (Node Undefined \<lparr>nid = 4, key = 4, val = Some 4, sortedMap = Some 0, depth = 1, nodeCount = 1, balanceFactor = 0\<rparr> Undefined))
       \<lparr>nid = 0, key = 5, val = Some 5, sortedMap = Some 0, depth = 3, nodeCount = 7, balanceFactor = 0\<rparr>
       (Node (Node Undefined \<lparr>nid = 5, key = 7, val = Some 7, sortedMap = Some 0, depth = 1, nodeCount = 1, balanceFactor = 0\<rparr> Undefined)
             \<lparr>nid = 2, key = 8, val = Some 8, sortedMap = Some 0, depth = 2, nodeCount = 3, balanceFactor = 0\<rparr>
             (Node Undefined \<lparr>nid = 6, key = 9, val = Some 9, sortedMap = Some 0, depth = 1, nodeCount = 1, balanceFactor = 0\<rparr> Undefined))"
  and sevenKeys_fields: "mid sevenKeys = 0" "fresh sevenKeys = 7" "comparator sevenKeys = autoComparator"
  unfolding sevenKeys_def by (simp_all add: run_defs)

lemma zigzag_root:
  "root zigzag =
     Node Undefined
       \<lparr>nid = 1, key = 1, val = Some 1, sortedMap = Some 0, depth = 4, nodeCount = 4, balanceFactor = 3\<rparr>
       (Node (Node Undefined \<lparr>nid = 2, key = 2, val = Some 2, sortedMap = Some 0, depth = 1, nodeCount = 1, balanceFactor = 0\<rparr> Undefined)
             \<lparr>nid = 0, key = 3, val = Some 3, sortedMap = Some 0, depth = 2, nodeCount = 2, balanceFactor = - 1\<rparr>
             Undefined)"
  and zigzag_fields: "mid zigzag = 0" "fresh zigzag = 3" "comparator zigzag = autoComparator"
  unfolding zigzag_def by (simp_all add: run_defs)

lemma ascending_root:
  "root ascending =
     Node (Node Undefined \<lparr>nid = 0, key = 1, val = Some 1, sortedMap = Some 0, depth = 1, nodeCount = 1, balanceFactor = 0\<rparr> Undefined)
       \<lparr>nid = 1, key = 2, val = Some 2, sortedMap = Some 0, depth = 4, nodeCount = 5, balanceFactor = - 2\<rparr>
       (Node Undefined \<lparr>nid = 2, key = 3, val = Some 3, sortedMap = Some 0, depth = 1, nodeCount = 1, balanceFactor = 0\<rparr> Undefined)"
  and ascending_fields: "mid ascending = 0" "fresh ascending = 3" "comparator ascending = autoComparator"
  unfolding ascending_def by (simp_all add: run_defs)

lemma arrayKeys_built:
  "set_all (SortedMap_new 0 bySum)
     [(ArrayKey [1, 5], None), (ArrayKey [2, 1], None), (ArrayKey [3, 25], None)] = Inr arrayKeys"
  unfolding arrayKeys_def by (simp add: run_defs)

lemma arrayKeys_root:
  "root arrayKeys =
     Node (Node Undefined \<lparr>nid = 1, key = ArrayKey [2, 1], val = None, sortedMap = Some 0, depth = 1, nodeCount = 1, balanceFactor = 0\<rparr> Undefined)
       \<lparr>nid = 0, key = ArrayKey [1, 5], val = None, sortedMap = Some 0, depth = 2, nodeCount = 3, balanceFactor = 0\<rparr>
       (Node Undefined \<lparr>nid = 2, key = ArrayKey [3, 25], val = None, sortedMap = Some 0, depth = 1, nodeCount = 1, balanceFactor = 0\<rparr> Undefined)"
  and arrayKeys_fields: "mid arrayKeys = 0" "fresh arrayKeys = 3" "comparator arrayKeys = bySum"
  unfolding arrayKeys_def by (simp_all add: run_defs)

lemma to_bySum: "total_order bySum"
  unfolding total_order_def by auto

lemma reach_set_all: "reach m s \<Longrightarrow> set_all m kvs = Inr m' \<Longrightarrow> reach m' s"
proof (induction kvs arbitrary: m)
  case Nil
  then show ?case by simp
next
  case (Cons kv kvs)
  obtain k v where kv: "kv = (k, v)" by (cases kv)
  from Cons.prems(2) kv obtain e m1 where
    1: "set_key m k v True = Inr (e, m1)" and 2: "set_all m1 kvs = Inr m'"
    by (auto split: sum.splits)
  from reach.set_key [OF Cons.prems(1) 1] have "reach m1 s" .
  from Cons.IH [OF this 2] show ?case .
qed

lemma reach_new: "reach (SortedMap_new i (autoComparator :: 'k::linorder comparator)) s"
  by (rule reach.new) (rule to_auto)

lemma reach_sevenKeys: "reach sevenKeys s"
  by (rule reach_set_all [OF reach_new sevenKeys_built])

lemma reach_zigzag: "reach zigzag s"
  by (rule reach_set_all [OF reach_new zigzag_built])

lemma reach_arrayKeys: "reach arrayKeys s"
  by (rule reach_set_all [OF reach.new [OF to_bySum] arrayKeys_built])

lemma reach_ascending: "reach ascending s"
  by (rule reach_set_all [OF reach_new ascending_built])

section \<open>Handles and settled trees\<close>

subsection \<open>Lookup after insertion\<close>

lemma set_then_find:
  assumes r: "reach m s"
  shows "\<exists>e m'. set_key m k v True = Inr (e, m') \<and> getEntry m' k = Some e \<and>
           key e = k \<and> val e = v"
proof -
  from set_key_invar [OF reach_invar [OF r], of k v True] obtain e m' where
    sk: "set_key m k v True = Inr (e, m')" and i: "invar m'"
    and e: "e \<in> set (iterator (root m'))" "key e = k" "val e = v" by auto
  from i have t: "total_order (comparator m')" by (simp add: invar_def)
  have "comparator m' k (key e) = 0" using e(2) to_refl [OF t] by simp
  from getNode_loop_found [OF t invar_bst [OF i] e(1) this]
  have "getEntry m' k = Some e" by (simp add: getEntry_def getNode_def)
  with sk e show ?thesis by blast
qed

subsection \<open>Owners of handles\<close>

lemma root_id_modify: "(\<And>c. nid (g c) = nid c) \<Longrightarrow> root_id (modify h g t) = root_id t"
  by (cases t) auto

lemma links_modify: "(\<And>c. nid (g c) = nid c) \<Longrightarrow> links (modify h g t) = links t"
  by (induction t) (auto simp: root_id_modify)

lemma owner_of_member:
  assumes "reach a s" "e \<in> set (iterator (root a))"
  shows "sortedMap e = None \<or> sortedMap e = Some (mid a)"
proof -
  from reach_invar [OF assms(1)]
  have "well (comparator a) (mid a) (fresh a) (contents (root a))" by (simp add: invar_def)
  with stored_in [OF assms(2)] have "sortedMap (stored e) = None \<or> sortedMap (stored e) = Some (mid a)"
    unfolding well_def by blast
  then show ?thesis by simp
qed

lemma deleted_owner:
  "deleteNode_rec cmp t k cond s = Inr (t', Some d, s') \<Longrightarrow> sortedMap d = None"
proof (cases "getNode_loop cmp k t")
  case None
  assume "deleteNode_rec cmp t k cond s = Inr (t', Some d, s')"
  from dN_absent [OF None this] show ?thesis by simp
next
  case (Some e)
  assume "deleteNode_rec cmp t k cond s = Inr (t', Some d, s')"
  from dN_present [OF Some this] show ?thesis by (auto simp: emancipate_def split: if_splits)
qed

lemma deletedSmallest_owner:
  "deleteSmallestNode_rec t cond s = Inr (t', Some d, s') \<Longrightarrow> sortedMap d = None"
proof (cases "getSmallestNode_loop t")
  case None
  assume "deleteSmallestNode_rec t cond s = Inr (t', Some d, s')"
  with None show ?thesis by simp
next
  case (Some e)
  assume "deleteSmallestNode_rec t cond s = Inr (t', Some d, s')"
  from dS_contents [OF Some this] show ?thesis by (auto simp: emancipate_def split: if_splits)
qed

lemma deletedLargest_owner:
  "deleteLargestNode_rec t cond s = Inr (t', Some d, s') \<Longrightarrow> sortedMap d = None"
proof (cases "getLargestNode_loop t")
  case None
  assume "deleteLargestNode_rec t cond s = Inr (t', Some d, s')"
  with None show ?thesis by simp
next
  case (Some e)
  assume "deleteLargestNode_rec t cond s = Inr (t', Some d, s')"
  from dL_contents [OF Some this] show ?thesis by (auto simp: emancipate_def split: if_splits)
qed

lemma removed_handle_owner:
  "delete a k cond s = Inr (Some d, a', s') \<Longrightarrow> sortedMap d = None"
  "deleteSmallest a cond s = Inr (Some d, a', s') \<Longrightarrow> sortedMap d = None"
  "deleteLargest a cond s = Inr (Some d, a', s') \<Longrightarrow> sortedMap d = None"
  by (auto simp: delete_def deleteSmallest_def deleteLargest_def split: sum.splits
      dest: deleted_owner deletedSmallest_owner deletedLargest_owner)

lemma no_owner_fails:
  "sortedMap e \<noteq> Some (mid m) \<Longrightarrow> reKey m e k = (False, m) \<and> reValue m e v = (False, m)"
  by (simp add: reKey_def reValue_def)

text \<open>
  A node that stays in the tree can lose its owner: deleting the key 5 of the seven keys (a
  node with two children) takes the successor 7 out of the right subtree, which emancipates
  it, and links it in place of the deleted node. The entry of key 7 is then found in the map,
  and \<open>reKey\<close> and \<open>reValue\<close> refuse it.
\<close>

lemma successor_loses_owner:
  "\<exists>d m' e. delete sevenKeys 5 None () = Inr (d, m', ()) \<and> getEntry m' 7 = Some e \<and>
     sortedMap e = None \<and> fst (reKey m' e 7) = False \<and> fst (reValue m' e (Some 70)) = False"
  by (simp add: delete_def condition_or_default_def returns_def sevenKeys_root sevenKeys_fields
      update_def refresh_def calcDepth_def calcNodeCount_def calcBalanceFactor_def
      cmpLT_def cmpGT_def emancipate_def getEntry_def getNode_def reKey_def reValue_def)

subsection \<open>Trees with up-to-date cached values\<close>

text \<open>
  On a settled tree the refresh and the balance step on the way back change nothing: finding
  a present key, a refused deletion and a double reversal return the tree they were given.
\<close>

lemma settled_update:
  "settled (Node l c r) \<Longrightarrow> balance (update l c r) = Inr (Node l c r)"
  by (simp add: update_def refresh_def)

lemma settled_find:
  "settled t \<Longrightarrow> getNode_loop cmp k t = Some e \<Longrightarrow>
   getNodeOrCompute_rec this cmp t k compute f s = Inr (t, nid e, f, s)"
proof (induction t)
  case Undefined
  then show ?case by simp
next
  case (Node l c r)
  note u = settled_update [OF Node.prems(1)]
  from Node.prems(1) have sl: "settled l" and sr: "settled r" by simp_all
  show ?case
  proof (cases "cmpLT (cmp k (key c))")
    case True
    with Node.prems(2) have "getNode_loop cmp k l = Some e" by simp
    from Node.IH(1) [OF sl this] True u show ?thesis by simp
  next
    case False
    show ?thesis
    proof (cases "cmpGT (cmp k (key c))")
      case True
      with False Node.prems(2) have "getNode_loop cmp k r = Some e" by simp
      from Node.IH(2) [OF sr this] True False u show ?thesis by simp
    next
      case F2: False
      with False Node.prems(2) show ?thesis by simp
    qed
  qed
qed

lemma settled_refuse:
  "settled t \<Longrightarrow> getNode_loop cmp k t = Some e \<Longrightarrow> \<not> fst (cond e s) \<Longrightarrow>
   deleteNode_rec cmp t k cond s = Inr (t, None, snd (cond e s))"
proof (induction t)
  case Undefined
  then show ?case by simp
next
  case (Node l c r)
  note u = settled_update [OF Node.prems(1)]
  from Node.prems(1) have sl: "settled l" and sr: "settled r" by simp_all
  show ?case
  proof (cases "cmpLT (cmp k (key c))")
    case True
    with Node.prems(2) have "getNode_loop cmp k l = Some e" by simp
    from Node.IH(1) [OF sl this Node.prems(3)] True u show ?thesis by simp
  next
    case False
    show ?thesis
    proof (cases "cmpGT (cmp k (key c))")
      case True
      with False Node.prems(2) have "getNode_loop cmp k r = Some e" by simp
      from Node.IH(2) [OF sr this Node.prems(3)] True False u show ?thesis by simp
    next
      case F2: False
      with False Node.prems(2) have ec: "e = c" by simp
      obtain ok s1 where c: "cond c s = (ok, s1)" by (cases "cond c s")
      with Node.prems(3) ec have "\<not> ok" by simp
      with False F2 c ec show ?thesis by simp
    qed
  qed
qed

lemma settled_invert_twice: "settled t \<Longrightarrow> invert_rec (invert_rec t) = t"
  by (induction t) (simp_all add: calcBalanceFactor_def)

lemma invert_twice_order:
  "contents (invert_rec (invert_rec t)) = contents t \<and>
   links (invert_rec (invert_rec t)) = links t \<and>
   map depth (iterator (invert_rec (invert_rec t))) = map depth (iterator t) \<and>
   map nodeCount (iterator (invert_rec (invert_rec t))) = map nodeCount (iterator t)"
proof (induction t)
  case Undefined
  show ?case by simp
next
  case (Node l c r)
  have "\<And>t :: ('a, 'b) node. root_id (invert_rec t) = root_id t"
  proof -
    fix t :: "('a, 'b) node" show "root_id (invert_rec t) = root_id t" by (cases t) simp_all
  qed
  with Node show ?case by (simp add: stored_def)
qed

lemma reverse_twice_comparator: "comparator (reverse (reverse m)) = comparator m"
  by (simp add: reverse_def reverseComparator_def)

text \<open>
  What holds of a deletion by key on every map, whatever its cached values: the condition is
  applied once, to the entry found, and a refusal changes no entry and returns nothing.
\<close>

lemma delete_condition:
  assumes "getNode m k = Some e" "delete m k (Some cond) s = Inr (d, m', s')"
  shows "s' = snd (cond e s) \<and>
    (if fst (cond e s) then d = Some (emancipate e)
     else d = None \<and> contents (root m') = contents (root m))"
proof -
  from assms(2) obtain t' where
    r: "deleteNode_rec (comparator m) (root m) k cond s = Inr (t', d, s')" and m': "m' = m\<lparr>root := t'\<rparr>"
    by (auto simp: delete_def condition_or_default_def split: sum.splits)
  from assms(1) have "getNode_loop (comparator m) k (root m) = Some e" by (simp add: getNode_def)
  from dN_present [OF this r] m' show ?thesis by (auto split: if_splits)
qed

section \<open>Queries on the objects\<close>

text \<open>On a memory that holds a tree, each loop and each generator returns, with the result
  of its counterpart on the tree and with the memory it was given.\<close>

lemma getNode_while_holds:
  "holds (objects \<sigma>) p t \<Longrightarrow>
   getNode_while k p \<sigma> = Some (map_option nid (getNode_loop (this_comparator \<sigma>) k t), \<sigma>)"
proof (induction t arbitrary: p)
  case Undefined
  then show ?case by (subst getNode_while.simps) simp
next
  case (Node l c r)
  then obtain a where p: "p = Some a" and a: "nid c = a" "own (objects \<sigma> a) = c"
    and l: "holds (objects \<sigma>) (left (objects \<sigma> a)) l"
    and r: "holds (objects \<sigma>) (right (objects \<sigma> a)) r"
    by (auto split: option.splits)
  show ?case
    by (subst getNode_while.simps) (simp add: p a Node.IH(1) [OF l] Node.IH(2) [OF r] Let_def)
qed

lemma holds_root_id: "holds h p t \<Longrightarrow> p = root_id t"
  by (cases t) (auto split: option.splits)

lemma getLargestNode_while_holds:
  "holds (objects \<sigma>) (Some a) t \<Longrightarrow>
   getLargestNode_while a \<sigma> = Some (the (map_option nid (getLargestNode_loop t)), \<sigma>)"
proof (induction t arbitrary: a)
  case Undefined
  then show ?case by simp
next
  case (Node l c r)
  then have a: "nid c = a" "own (objects \<sigma> a) = c"
    and r: "holds (objects \<sigma>) (right (objects \<sigma> a)) r"
    by (auto split: option.splits)
  show ?case
  proof (cases r)
    case Undefined
    with r have "right (objects \<sigma> a) = None" by simp
    then show ?thesis by (subst getLargestNode_while.simps) (simp add: Undefined a)
  next
    case (Node rl rc rr)
    with r obtain b where b: "right (objects \<sigma> a) = Some b" by (auto split: option.splits)
    from r b have "holds (objects \<sigma>) (Some b) r" by simp
    from Node.IH(2) [OF this] show ?thesis
      by (subst getLargestNode_while.simps) (simp add: b Node)
  qed
qed

lemma getSmallestNode_while_holds:
  "holds (objects \<sigma>) (Some a) t \<Longrightarrow>
   getSmallestNode_while a \<sigma> = Some (the (map_option nid (getSmallestNode_loop t)), \<sigma>)"
proof (induction t arbitrary: a)
  case Undefined
  then show ?case by simp
next
  case (Node l c r)
  then have a: "nid c = a" "own (objects \<sigma> a) = c"
    and l: "holds (objects \<sigma>) (left (objects \<sigma> a)) l"
    by (auto split: option.splits)
  show ?case
  proof (cases l)
    case Undefined
    with l have "left (objects \<sigma> a) = None" by simp
    then show ?thesis by (subst getSmallestNode_while.simps) (simp add: Undefined a)
  next
    case (Node ll lc lr)
    with l obtain b where b: "left (objects \<sigma> a) = Some b" by (auto split: option.splits)
    from l b have "holds (objects \<sigma>) (Some b) l" by simp
    from Node.IH(1) [OF this] show ?thesis
      by (subst getSmallestNode_while.simps) (simp add: b Node)
  qed
qed

lemma iterator_mem_holds:
  "holds (objects \<sigma>) p t \<Longrightarrow> iterator_mem p \<sigma> = Some (map nid (iterator t), \<sigma>)"
proof (induction t arbitrary: p)
  case Undefined
  then show ?case by (subst iterator_mem.simps) simp
next
  case (Node l c r)
  then obtain a where p: "p = Some a" and a: "nid c = a" "own (objects \<sigma> a) = c"
    and l: "holds (objects \<sigma>) (left (objects \<sigma> a)) l"
    and r: "holds (objects \<sigma>) (right (objects \<sigma> a)) r"
    by (auto split: option.splits)
  show ?case
    by (subst iterator_mem.simps) (simp add: p a Node.IH(1) [OF l] Node.IH(2) [OF r])
qed

lemma iteratorReversed_mem_holds:
  "holds (objects \<sigma>) p t \<Longrightarrow>
   iteratorReversed_mem p \<sigma> = Some (map nid (iteratorReversed t), \<sigma>)"
proof (induction t arbitrary: p)
  case Undefined
  then show ?case by (subst iteratorReversed_mem.simps) simp
next
  case (Node l c r)
  then obtain a where p: "p = Some a" and a: "nid c = a" "own (objects \<sigma> a) = c"
    and l: "holds (objects \<sigma>) (left (objects \<sigma> a)) l"
    and r: "holds (objects \<sigma>) (right (objects \<sigma> a)) r"
    by (auto split: option.splits)
  show ?case
    by (subst iteratorReversed_mem.simps) (simp add: p a Node.IH(1) [OF l] Node.IH(2) [OF r])
qed

lemma getRange_mem_recur_holds:
  "holds (objects \<sigma>) p t \<Longrightarrow>
   getRange_mem_recur shape mn mx rv p \<sigma> =
     Some (map nid (getRange_recur (this_comparator \<sigma>) shape mn mx rv t), \<sigma>)"
proof (induction t arbitrary: p)
  case Undefined
  then show ?case by (subst getRange_mem_recur.simps) simp
next
  case (Node l c r)
  then obtain a where p: "p = Some a" and a: "nid c = a" "own (objects \<sigma> a) = c"
    and l: "holds (objects \<sigma>) (left (objects \<sigma> a)) l"
    and r: "holds (objects \<sigma>) (right (objects \<sigma> a)) r"
    by (auto split: option.splits)
  note L = Node.IH(1) [OF l] and R = Node.IH(2) [OF r]
  from L R show ?case
    by (cases rv) (subst getRange_mem_recur.simps, simp add: p a Let_def)+
qed

lemma holds_own:
  "holds h p t \<Longrightarrow> e \<in> set (iterator t) \<Longrightarrow> own (h (nid e)) = e"
  by (induction t arbitrary: p) (auto split: option.splits)

lemma holds_cong:
  "(\<And>a. a \<in> nid ` set (iterator t) \<Longrightarrow> h a = h' a) \<Longrightarrow> holds h p t = holds h' p t"
proof (induction t arbitrary: p)
  case Undefined
  show ?case by simp
next
  case (Node l c r)
  have 0: "h (nid c) = h' (nid c)" by (rule Node.prems) simp
  have 1: "\<And>q. holds h q l = holds h' q l" by (rule Node.IH(1)) (auto intro: Node.prems)
  have 2: "\<And>q. holds h q r = holds h' q r" by (rule Node.IH(2)) (auto intro: Node.prems)
  show ?case by (cases p) (auto simp: 0 1 2)
qed

lemma lay_outside: "a \<notin> nid ` set (iterator t) \<Longrightarrow> lay t h a = h a"
  by (induction t arbitrary: h) (auto simp: image_Un)

lemma holds_lay:
  "distinct (map nid (iterator t)) \<Longrightarrow> holds (lay t h) (root_id t) t"
proof (induction t arbitrary: h)
  case Undefined
  show ?case by simp
next
  case (Node l c r)
  let ?H = "lay (Node l c r) h"
  from Node.prems have dl: "distinct (map nid (iterator l))"
    and dr: "distinct (map nid (iterator r))"
    and cl: "nid c \<notin> nid ` set (iterator l)" and cr: "nid c \<notin> nid ` set (iterator r)"
    and lr: "nid ` set (iterator l) \<inter> nid ` set (iterator r) = {}"
    by auto
  have "holds ?H (root_id l) l = holds (lay l h) (root_id l) l"
  proof (rule holds_cong)
    fix a assume a: "a \<in> nid ` set (iterator l)"
    with cl have "a \<noteq> nid c" by blast
    moreover from a lr have "a \<notin> nid ` set (iterator r)" by blast
    ultimately show "?H a = lay l h a" by (simp add: lay_outside)
  qed
  with Node.IH(1) [OF dl] have 1: "holds ?H (root_id l) l" by simp
  have "holds ?H (root_id r) r = holds (lay r (lay l h)) (root_id r) r"
  proof (rule holds_cong)
    fix a assume a: "a \<in> nid ` set (iterator r)"
    with cr have "a \<noteq> nid c" by blast
    then show "?H a = lay r (lay l h) a" by simp
  qed
  with Node.IH(2) [OF dr] have 2: "holds ?H (root_id r) r" by simp
  from 1 2 show ?case by (simp add: fun_upd_same del: fun_upd_apply)
qed

lemma reach_models: "reach m s \<Longrightarrow> models (memory_of h m) m"
proof -
  assume "reach m s"
  then have "invar m" by (rule reach_invar)
  then have "distinct (map nid (contents (root m)))" by (simp add: invar_def well_def)
  then have "distinct (map nid (iterator (root m)))"
    by (simp add: contents_def stored_def comp_def)
  then show ?thesis by (simp add: models_def memory_of_def holds_lay)
qed

section \<open>Properties of the specification\<close>

text \<open>
  C1 (balance invariant). After \<open>set(3)\<close>, \<open>set(1)\<close>, \<open>set(2)\<close> on an empty map the cached
  balance factor of the root (key 1) is 3, and the tree itself is out of balance there: the
  right subtree is two levels higher than the absent left one (\<open>slopes\<close> lists, per node in
  key order, the height of the right subtree minus that of the left). After \<open>set(1)\<close>,
  \<open>set(2)\<close>, \<open>set(3)\<close> the tree is level, but the root (key 2) caches the balance factor
  -2 and the node count 5. \<open>balance\<close> rotates once where the imbalance asks for a double
  rotation, and each rotation refreshes the cached values of the promoted node before those
  of the demoted one. So balance factors outside \<open>{-1, 0, 1}\<close> occur after sequences of
  \<open>set\<close> alone.
\<close>

theorem zigzag_balance_factors:
  "set_all (SortedMap_new 0 autoComparator) (keyed [3, 1, 2]) = Inr zigzag \<and>
   map (\<lambda>e. (key e, balanceFactor e)) (iterator (root zigzag)) = [(1, 3), (2, 0), (3, - 1)] \<and>
   slopes (root zigzag) = [2, 0, - 1] \<and>
   set_all (SortedMap_new 0 autoComparator) (keyed [1, 2, 3]) = Inr ascending \<and>
   map (\<lambda>e. (key e, balanceFactor e, nodeCount e)) (iterator (root ascending))
     = [(1, 0, 1), (2, - 2, 5), (3, 0, 1)] \<and>
   slopes (root ascending) = [0, 0, 0]"
  using zigzag_built ascending_built by (simp add: zigzag_root ascending_root)

text \<open>
  C2 (range correctness), as amended. On every tree a map can hold, for bounds that are
  absent, a bare key that is not itself \<open>undefined\<close>, a function or an array, a pair of a
  key and a type, or a predicate that is monotone in the order (a minimum predicate that
  holds of a key holds of every key not smaller, a maximum predicate that holds of a key
  holds of every key not larger), \<open>getRange\<close> yields exactly the entries whose keys satisfy
  both bounds (\<open>in_range\<close>, written from the words of the specification), in ascending key
  order, and the same entries in the opposite order when \<open>reversed\<close> is set. On the keys
  1, 3, 4, 5, 7, 8, 9: \<open>getRange(3, 7)\<close> yields 3, 4, 5, 7 and the exclusive range yields
  4, 5.
\<close>

theorem range_correct:
  assumes "reach m s" "upward (comparator m) mn" "downward (comparator m) mx"
    "plain shape mn" "plain shape mx"
  shows "getRange m shape mn mx False =
           filter (in_range (comparator m) mn mx) (iterator (root m)) \<and>
         getRange m shape mn mx True =
           rev (filter (in_range (comparator m) mn mx) (iterator (root m))) \<and>
         sorted_wrt (before (comparator m)) (map key (getRange m shape mn mx False)) \<and>
         map key (getRange sevenKeys numberShape (Bare 3) (Bare 7) False) = [3, 4, 5, 7] \<and>
         map key (getRange sevenKeys numberShape
                    (Tuple 3 (Some Exclusive)) (Tuple 7 (Some Exclusive)) False) = [4, 5]"
proof -
  note i = reach_invar [OF assms(1)]
  from i have t: "total_order (comparator m)" by (simp add: invar_def)
  note b = invar_bst [OF i]
  have 1: "getRange m shape mn mx False =
      filter (in_range (comparator m) mn mx) (iterator (root m))"
    using range_forward [OF t assms(2,3,4,5) b] by (simp add: getRange_def)
  have 2: "getRange m shape mn mx True =
      rev (filter (in_range (comparator m) mn mx) (iterator (root m)))"
    using range_reversed [OF t assms(2,3,4,5) b] by (simp add: getRange_def)
  have "sorted_wrt (before (comparator m)) (map key (iterator (root m)))"
    using bst_sorted [OF t, of "root m"] b by blast
  then have 3: "sorted_wrt (before (comparator m)) (map key (getRange m shape mn mx False))"
    unfolding 1 by (rule sorted_filter_keys)
  have 4: "map key (getRange sevenKeys numberShape (Bare 3) (Bare 7) False) = [3, 4, 5, 7]"
    by (simp add: getRange_def sevenKeys_root sevenKeys_fields tooSmall_def tooBig_def
        numberShape_def cmpLT_def cmpGT_def)
  have 5: "map key (getRange sevenKeys numberShape
                    (Tuple 3 (Some Exclusive)) (Tuple 7 (Some Exclusive)) False) = [4, 5]"
    by (simp add: getRange_def sevenKeys_root sevenKeys_fields tooSmall_def tooBig_def
        cmpLE_def cmpGE_def)
  from 1 2 3 4 5 show ?thesis by blast
qed

theorem range_correct_witness:
  "reach sevenKeys () \<and>
   upward (comparator sevenKeys) (Bare 3) \<and>
   downward (comparator sevenKeys) (Pred ((\<ge>) 7)) \<and>
   plain numberShape (Bare 3) \<and> plain numberShape (Pred ((\<ge>) 7)) \<and>
   getRange sevenKeys numberShape (Bare 3) (Pred ((\<ge>) 7)) False =
     filter (in_range (comparator sevenKeys) (Bare 3) (Pred ((\<ge>) 7)))
       (iterator (root sevenKeys)) \<and>
   getRange sevenKeys numberShape (Bare 3) (Pred ((\<ge>) 7)) True =
     rev (filter (in_range (comparator sevenKeys) (Bare 3) (Pred ((\<ge>) 7)))
       (iterator (root sevenKeys))) \<and>
   map key (getRange sevenKeys numberShape (Bare 3) (Pred ((\<ge>) 7)) False) = [3, 4, 5, 7] \<and>
   map key (getRange sevenKeys numberShape (Bare 3) (Pred ((\<ge>) 7)) True) = [7, 5, 4, 3]"
proof -
  have r: "reach sevenKeys ()" by (rule reach_sevenKeys)
  have u: "upward (comparator sevenKeys) (Bare 3)" by (simp add: upward_def)
  have d: "downward (comparator sevenKeys) (Pred ((\<ge>) 7))"
    by (auto simp: downward_def sevenKeys_fields split: if_splits)
  have pn: "plain numberShape (Bare 3)" by (simp add: plain_def numberShape_def)
  have px: "plain numberShape (Pred ((\<ge>) 7))" by (simp add: plain_def)
  have k: "map key (getRange sevenKeys numberShape (Bare 3) (Pred ((\<ge>) 7)) False) = [3, 4, 5, 7]"
    "map key (getRange sevenKeys numberShape (Bare 3) (Pred ((\<ge>) 7)) True) = [7, 5, 4, 3]"
    by (simp_all add: getRange_def sevenKeys_root sevenKeys_fields tooSmall_def tooBig_def
        numberShape_def cmpLT_def cmpGT_def)
  from range_correct [OF r u d pn px] r u d pn px k show ?thesis by blast
qed

text \<open>
  C2 as stated fails in two ways, both on maps a program can build. A predicate that is not
  monotone: on the keys 1, 3, 4, 5, 7, 8, 9 with the minimum predicate "is even", the root
  5 is too small, its left subtree is never visited, and the even key 4 in it is not
  yielded. A bare key that is an array: on the map of the array keys \<open>[2, 1]\<close>, \<open>[1, 5]\<close>,
  \<open>[3, 25]\<close> ordered by their sums, the minimum \<open>[2, 24]\<close> (sum 26) is read as the pair of
  the key 2 and a type, so all three entries are yielded where only \<open>[3, 25]\<close> is not
  smaller than the bound.
\<close>

theorem range_counterexample:
  "reach sevenKeys () \<and>
   getRange sevenKeys numberShape (Pred even) Unbounded False \<noteq>
     filter (in_range (comparator sevenKeys) (Pred even) Unbounded) (iterator (root sevenKeys)) \<and>
   map key (getRange sevenKeys numberShape (Pred even) Unbounded False) = [8] \<and>
   map key (filter (in_range (comparator sevenKeys) (Pred even) Unbounded)
              (iterator (root sevenKeys))) = [4, 8] \<and>
   reach arrayKeys () \<and>
   getRange arrayKeys jsShape (Bare (ArrayKey [2, 24])) Unbounded False \<noteq>
     filter (in_range (comparator arrayKeys) (Bare (ArrayKey [2, 24])) Unbounded)
       (iterator (root arrayKeys)) \<and>
   map key (getRange arrayKeys jsShape (Bare (ArrayKey [2, 24])) Unbounded False) =
     [ArrayKey [2, 1], ArrayKey [1, 5], ArrayKey [3, 25]] \<and>
   map key (filter (in_range (comparator arrayKeys) (Bare (ArrayKey [2, 24])) Unbounded)
              (iterator (root arrayKeys))) = [ArrayKey [3, 25]]"
proof -
  have 1: "map key (getRange sevenKeys numberShape (Pred even) Unbounded False) = [8]"
    by (simp add: getRange_def sevenKeys_root sevenKeys_fields tooSmall_def tooBig_def)
  have 2: "map key (filter (in_range (comparator sevenKeys) (Pred even) Unbounded)
              (iterator (root sevenKeys))) = [4, 8]"
    by (simp add: sevenKeys_root in_range_def satisfies_min_def satisfies_max_def)
  have 3: "map key (getRange arrayKeys jsShape (Bare (ArrayKey [2, 24])) Unbounded False) =
     [ArrayKey [2, 1], ArrayKey [1, 5], ArrayKey [3, 25]]"
    by (simp add: getRange_def arrayKeys_root arrayKeys_fields tooSmall_def tooBig_def
        cmpLT_def)
  have 4: "map key (filter (in_range (comparator arrayKeys) (Bare (ArrayKey [2, 24])) Unbounded)
              (iterator (root arrayKeys))) = [ArrayKey [3, 25]]"
    by (simp add: arrayKeys_root arrayKeys_fields in_range_def satisfies_min_def
        satisfies_max_def)
  from 1 2 have 5: "getRange sevenKeys numberShape (Pred even) Unbounded False \<noteq>
     filter (in_range (comparator sevenKeys) (Pred even) Unbounded) (iterator (root sevenKeys))"
    by auto
  from 3 4 have 6: "getRange arrayKeys jsShape (Bare (ArrayKey [2, 24])) Unbounded False \<noteq>
     filter (in_range (comparator arrayKeys) (Bare (ArrayKey [2, 24])) Unbounded)
       (iterator (root arrayKeys))"
    by auto
  from 1 2 3 4 5 6 reach_sevenKeys [of "()"] reach_arrayKeys [of "()"] show ?thesis by blast
qed

text \<open>
  C3 (refused deletion). On the map built by \<open>set(3)\<close>, \<open>set(1)\<close>, \<open>set(2)\<close>,
  \<open>delete(3, condition)\<close> with a condition that returns false calls the condition once
  (the counter goes from 0 to 1) and returns absent, but the map is not left as it was: on
  the way back the root refreshes its cached values and rotates, so the node of key 3
  (identity 0) becomes the root and the nodes of keys 1 and 2 are linked anew. \<open>links\<close>
  lists, per node in key order, its identity and those of its left and right child.
\<close>

theorem refused_delete_restructures:
  "\<exists>m'. delete zigzag 3 (Some (\<lambda>e calls. (False, Suc calls))) (0::nat) = Inr (None, m', 1) \<and>
     links (root zigzag) = [(1, None, Some 0), (2, None, None), (0, Some 2, None)] \<and>
     links (root m') = [(1, None, Some 2), (2, None, None), (0, Some 1, None)]"
  by (simp add: delete_def condition_or_default_def zigzag_root zigzag_fields update_def
      refresh_def calcDepth_def calcNodeCount_def calcBalanceFactor_def cmpLT_def cmpGT_def)

text \<open>
  C4 (order invariant). On every map a program can build, the tree is a search tree for the
  map's comparator, and every public mutation (\<open>set\<close>, \<open>getOrCompute\<close>, \<open>delete\<close>,
  \<open>deleteSmallest\<close>, \<open>deleteLargest\<close>, \<open>reKey\<close> with a handle that refers to an existing
  node, \<open>reverse\<close>, \<open>clear\<close>) completes without raising and leaves a search tree for the
  comparator the map then has.
\<close>

theorem bst_after_every_mutation:
  assumes "reach m s"
  shows "bst (comparator m) (root m) \<and>
    (\<exists>e m'. set_key m k1 v replace = Inr (e, m') \<and> bst (comparator m') (root m')) \<and>
    (\<exists>x m' s'. getOrCompute m k2 compute s = Inr (x, m', s') \<and> bst (comparator m') (root m')) \<and>
    (\<exists>d m' s'. delete m k3 c1 s = Inr (d, m', s') \<and> bst (comparator m') (root m')) \<and>
    (\<exists>d m' s'. deleteSmallest m c2 s = Inr (d, m', s') \<and> bst (comparator m') (root m')) \<and>
    (\<exists>d m' s'. deleteLargest m c3 s = Inr (d, m', s') \<and> bst (comparator m') (root m')) \<and>
    (genuine m h \<longrightarrow> bst (comparator (snd (reKey m h k4))) (root (snd (reKey m h k4)))) \<and>
    bst (comparator (reverse m)) (root (reverse m)) \<and>
    bst (comparator (clear m)) (root (clear m))"
proof -
  note i = reach_invar [OF assms]
  have 1: "bst (comparator m) (root m)" by (rule invar_bst [OF i])
  have 2: "\<exists>e m'. set_key m k1 v replace = Inr (e, m') \<and> bst (comparator m') (root m')"
    using set_key_invar [OF i, of k1 v replace] invar_bst by blast
  have 3: "\<exists>x m' s'. getOrCompute m k2 compute s = Inr (x, m', s') \<and> bst (comparator m') (root m')"
    using getOrCompute_invar [OF i, of k2 compute s] invar_bst by blast
  have 4: "\<exists>d m' s'. delete m k3 c1 s = Inr (d, m', s') \<and> bst (comparator m') (root m')"
    using delete_invar [OF i, of k3 c1 s] invar_bst by blast
  have 5: "\<exists>d m' s'. deleteSmallest m c2 s = Inr (d, m', s') \<and> bst (comparator m') (root m')"
    using deleteSmallest_invar [OF i, of c2 s] invar_bst by blast
  have 6: "\<exists>d m' s'. deleteLargest m c3 s = Inr (d, m', s') \<and> bst (comparator m') (root m')"
    using deleteLargest_invar [OF i, of c3 s] invar_bst by blast
  have 7: "genuine m h \<longrightarrow> bst (comparator (snd (reKey m h k4))) (root (snd (reKey m h k4)))"
    using reKey_invar [OF i, of h k4] invar_bst by blast
  have 8: "bst (comparator (reverse m)) (root (reverse m))"
    by (rule invar_bst [OF reverse_invar [OF i]])
  have 9: "bst (comparator (clear m)) (root (clear m))"
    by (rule invar_bst [OF clear_invar [OF i]])
  from 1 2 3 4 5 6 7 8 9 show ?thesis by blast
qed

theorem bst_after_every_mutation_witness:
  "reach sevenKeys () \<and> genuine sevenKeys (the (getEntry sevenKeys 4)) \<and>
   bst (comparator sevenKeys) (root sevenKeys) \<and>
   (\<exists>e m'. set_key sevenKeys 6 (Some 6) True = Inr (e, m') \<and> bst (comparator m') (root m')) \<and>
   (\<exists>d m' s'. delete sevenKeys 5 None () = Inr (d, m', s') \<and> bst (comparator m') (root m')) \<and>
   bst (comparator (snd (reKey sevenKeys (the (getEntry sevenKeys 4)) 4)))
     (root (snd (reKey sevenKeys (the (getEntry sevenKeys 4)) 4))) \<and>
   bst (comparator (reverse sevenKeys)) (root (reverse sevenKeys))"
proof -
  have r: "reach sevenKeys ()" by (rule reach_sevenKeys)
  have g: "genuine sevenKeys (the (getEntry sevenKeys 4))"
    by (simp add: genuine_def getEntry_def getNode_def sevenKeys_root sevenKeys_fields
        cmpLT_def cmpGT_def)
  from bst_after_every_mutation [OF r, where ?k1.0 = 6 and v = "Some 6" and replace = True
      and ?k3.0 = 5 and ?c1.0 = None and h = "the (getEntry sevenKeys 4)" and ?k4.0 = 4] r g
  show ?thesis by blast
qed

text \<open>
  C5 (round trip). On every map a program can build, \<open>set(k, v)\<close> with the default
  \<open>replace = true\<close> completes, and \<open>get(k)\<close> on the resulting map is \<open>v\<close>.
\<close>

theorem set_then_get:
  assumes "reach m s"
  shows "\<exists>e m'. set_key m k v True = Inr (e, m') \<and> get m' k = v"
  using set_then_find [OF assms, of k v] by (auto simp: get_def)

theorem set_then_get_witness:
  "reach sevenKeys () \<and>
   (\<exists>e m'. set_key sevenKeys 4 (Some 40) True = Inr (e, m') \<and> get m' 4 = Some 40)"
  using set_then_get [OF reach_sevenKeys [of "()"], of 4 "Some 40"] reach_sevenKeys [of "()"]
  by blast

text \<open>
  C6 (insert or compute on a present key). On the map built by \<open>set(3)\<close>, \<open>set(1)\<close>,
  \<open>set(2)\<close>, both \<open>set(3, 30, false)\<close> and \<open>getOrCompute(3, thunk)\<close> find the key: the
  thunk is not called (its counter stays 0), the stored value 3 stays and is what is returned,
  but the tree structure is not left untouched: as in C3 the root refreshes and rotates on
  the way back, and the node of key 3 becomes the root.
\<close>

theorem duplicate_insert_restructures:
  "(\<exists>e m'. set_key zigzag 3 (Some 30) False = Inr (e, m') \<and> val e = Some 3 \<and>
       links (root m') = [(1, None, Some 2), (2, None, None), (0, Some 1, None)]) \<and>
   (\<exists>m'. getOrCompute zigzag 3 (\<lambda>calls. (Some 30, Suc calls)) (0::nat) = Inr (Some 3, m', 0) \<and>
       links (root m') = [(1, None, Some 2), (2, None, None), (0, Some 1, None)]) \<and>
   links (root zigzag) = [(1, None, Some 0), (2, None, None), (0, Some 2, None)]"
  by (simp add: set_key_def getOrCompute_def getEntryOrCompute_def getNodeOrCompute_def
      the_node_def zigzag_root zigzag_fields update_def
      refresh_def calcDepth_def calcNodeCount_def calcBalanceFactor_def cmpLT_def cmpGT_def)

text \<open>
  C7 (reverse twice). On the map built by \<open>set(1)\<close>, \<open>set(2)\<close>, \<open>set(3)\<close> the root (key 2)
  carries the cached balance factor -2 that the rotation left there; \<open>reverse(); reverse()\<close>
  recomputes it from the cached depths of the children, and it is 0 afterwards, not the
  value it had before the two calls.
\<close>

theorem double_reverse_balance_factor:
  "map (\<lambda>e. (key e, balanceFactor e)) (iterator (root ascending)) = [(1, 0), (2, - 2), (3, 0)] \<and>
   map (\<lambda>e. (key e, balanceFactor e)) (iterator (root (reverse (reverse ascending))))
     = [(1, 0), (2, 0), (3, 0)]"
  by (simp add: ascending_root reverse_def calcBalanceFactor_def)

text \<open>
  C8 (ownership of handles). \<open>reKey\<close> returns true exactly when the handle's owner is this map
  and the comparator reports the new key equal to the handle's key; then the key of that one
  node is written and no link changes, otherwise the map is returned as it is. \<open>reValue\<close>
  returns false and changes nothing when the owner is not this map. Neither has an error
  result. A handle of a map \<open>a\<close> fails on a map of another identity, an emancipated handle
  fails, and so does the handle that \<open>delete\<close> returns.
\<close>

theorem handle_ownership:
  "fst (reKey m e k) = (sortedMap e = Some (mid m) \<and> comparator m k (key e) = 0) \<and>
   snd (reKey m e k) =
     (if fst (reKey m e k) then m\<lparr>root := modify (nid e) (\<lambda>c. c\<lparr>key := k\<rparr>) (root m)\<rparr> else m) \<and>
   links (root (snd (reKey m e k))) = links (root m) \<and>
   iterator (root (snd (reKey m e k))) =
     (if fst (reKey m e k)
      then map (\<lambda>c. if nid c = nid e then c\<lparr>key := k\<rparr> else c) (iterator (root m))
      else iterator (root m)) \<and>
   (sortedMap e \<noteq> Some (mid m) \<longrightarrow> reValue m e v = (False, m)) \<and>
   (reach a s \<and> mid a \<noteq> mid m \<and> x \<in> set (iterator (root a)) \<longrightarrow>
      reKey m x k = (False, m) \<and> reValue m x v = (False, m)) \<and>
   reKey m (emancipate e) k = (False, m) \<and> reValue m (emancipate e) v = (False, m) \<and>
   (delete a k' cond t = Inr (Some d, a', t') \<longrightarrow>
      reKey m d k = (False, m) \<and> reValue m d v = (False, m))"
proof -
  have 1: "fst (reKey m e k) = (sortedMap e = Some (mid m) \<and> comparator m k (key e) = 0)"
    by (simp add: reKey_def cmpNQ_def)
  have 2: "snd (reKey m e k) =
     (if fst (reKey m e k) then m\<lparr>root := modify (nid e) (\<lambda>c. c\<lparr>key := k\<rparr>) (root m)\<rparr> else m)"
    by (simp add: reKey_def)
  have 3: "links (root (snd (reKey m e k))) = links (root m)"
    by (simp add: reKey_def links_modify)
  have it: "iterator (root (snd (reKey m e k))) =
     (if fst (reKey m e k)
      then map (\<lambda>c. if nid c = nid e then c\<lparr>key := k\<rparr> else c) (iterator (root m))
      else iterator (root m))"
    by (simp add: reKey_def iterator_modify)
  have 4: "sortedMap e \<noteq> Some (mid m) \<longrightarrow> reValue m e v = (False, m)"
    by (simp add: reValue_def)
  have 5: "reach a s \<and> mid a \<noteq> mid m \<and> x \<in> set (iterator (root a)) \<longrightarrow>
      reKey m x k = (False, m) \<and> reValue m x v = (False, m)"
  proof (intro impI)
    assume h: "reach a s \<and> mid a \<noteq> mid m \<and> x \<in> set (iterator (root a))"
    with owner_of_member [of a s x] have "sortedMap x \<noteq> Some (mid m)" by auto
    then show "reKey m x k = (False, m) \<and> reValue m x v = (False, m)" by (rule no_owner_fails)
  qed
  have 6: "reKey m (emancipate e) k = (False, m) \<and> reValue m (emancipate e) v = (False, m)"
    by (rule no_owner_fails) (simp add: emancipate_def)
  have 7: "delete a k' cond t = Inr (Some d, a', t') \<longrightarrow>
      reKey m d k = (False, m) \<and> reValue m d v = (False, m)"
  proof
    assume "delete a k' cond t = Inr (Some d, a', t')"
    from removed_handle_owner(1) [OF this] have "sortedMap d \<noteq> Some (mid m)" by simp
    then show "reKey m d k = (False, m) \<and> reValue m d v = (False, m)" by (rule no_owner_fails)
  qed
  from 1 2 3 it 4 5 6 7 show ?thesis by blast
qed

theorem handle_ownership_witness:
  "sortedMap entry4 \<noteq> Some (mid otherMap) \<and> reValue otherMap entry4 (Some 0) = (False, otherMap) \<and>
   reach sevenKeys () \<and> mid sevenKeys \<noteq> mid otherMap \<and> entry4 \<in> set (iterator (root sevenKeys)) \<and>
   reKey otherMap entry4 4 = (False, otherMap) \<and>
   delete sevenKeys 4 None () = Inr (Some (the (fst removed4)), fst (snd removed4), ()) \<and>
   reKey otherMap (the (fst removed4)) 4 = (False, otherMap) \<and>
   reValue otherMap (the (fst removed4)) (Some 0) = (False, otherMap)"
proof -
  have e: "entry4 = \<lparr>nid = 4, key = 4, val = Some 4, sortedMap = Some 0, depth = 1, nodeCount = 1,
      balanceFactor = 0\<rparr>"
    by (simp add: entry4_def getEntry_def getNode_def sevenKeys_root sevenKeys_fields
        cmpLT_def cmpGT_def)
  have 1: "sortedMap entry4 \<noteq> Some (mid otherMap)"
    by (simp add: e otherMap_def SortedMap_new_def)
  have 2: "mid sevenKeys \<noteq> mid otherMap"
    by (simp add: sevenKeys_fields otherMap_def SortedMap_new_def)
  have 3: "entry4 \<in> set (iterator (root sevenKeys))" by (simp add: e sevenKeys_root)
  have "\<exists>d a'. delete sevenKeys 4 None () = Inr (Some d, a', ())"
    by (simp add: delete_def condition_or_default_def returns_def sevenKeys_root sevenKeys_fields
        update_def refresh_def calcDepth_def calcNodeCount_def calcBalanceFactor_def
        cmpLT_def cmpGT_def)
  then have 4: "delete sevenKeys 4 None () = Inr (Some (the (fst removed4)), fst (snd removed4), ())"
    unfolding removed4_def by auto
  note r = reach_sevenKeys [of "()"]
  from handle_ownership [where m = otherMap and e = entry4 and k = 4 and v = "Some 0"
      and a = sevenKeys and s = "()" and x = entry4 and k' = 4 and cond = None and t = "()"
      and d = "the (fst removed4)" and a' = "fst (snd removed4)" and t' = "()"] 1 2 3 4 r
  show ?thesis by blast
qed

text \<open>
  C9 (queries leave the map unchanged). On a memory that models a map, each of \<open>getEntry\<close>,
  \<open>get\<close>, \<open>getSmallestEntry\<close>, \<open>getLargestEntry\<close>, \<open>getRange\<close>, \<open>keys\<close>, \<open>values\<close>,
  \<open>entries\<close>, the default iteration and \<open>reversed\<close>, run to the end of its sequence,
  returns, and the memory it leaves behind is the memory it was given: the root, the
  comparator, and of every object the key, the value, the owner, the cached depth, node
  count and balance factor, and the two links. Its result is that of the query on the tree.
  Every map a program can build has such a memory (lemma \<open>reach_models\<close>).
\<close>

theorem queries_leave_memory:
  assumes "models \<sigma> m"
  shows "getEntry_mem \<sigma> k = Some (map_option nid (getEntry m k), \<sigma>) \<and>
         get_mem \<sigma> k = Some (get m k, \<sigma>) \<and>
         getSmallestEntry_mem \<sigma> = Some (map_option nid (getSmallestEntry m), \<sigma>) \<and>
         getLargestEntry_mem \<sigma> = Some (map_option nid (getLargestEntry m), \<sigma>) \<and>
         getRange_mem \<sigma> shape mn mx rv = Some (map nid (getRange m shape mn mx rv), \<sigma>) \<and>
         keys_mem \<sigma> = Some (keys m, \<sigma>) \<and>
         values_mem \<sigma> = Some (values_of m, \<sigma>) \<and>
         entries_mem \<sigma> = Some (entries m, \<sigma>) \<and>
         iteration_mem \<sigma> = Some (map nid (iterator (root m)), \<sigma>) \<and>
         reversed_mem \<sigma> = Some (map nid (reversed m), \<sigma>)"
proof -
  from assms have h: "holds (objects \<sigma>) (this_root \<sigma>) (root m)"
    and c: "this_comparator \<sigma> = comparator m"
    by (simp_all add: models_def)
  have own: "\<And>e. e \<in> set (iterator (root m)) \<Longrightarrow> own (objects \<sigma> (nid e)) = e"
    by (rule holds_own [OF h])
  have 1: "getEntry_mem \<sigma> k = Some (map_option nid (getEntry m k), \<sigma>)"
    using getNode_while_holds [OF h, of k]
    by (simp add: getEntry_mem_def getNode_mem_def getEntry_def getNode_def c)
  have "\<And>e. getEntry m k = Some e \<Longrightarrow> e \<in> set (iterator (root m))"
    by (auto simp: getEntry_def getNode_def dest: getNode_loop_SomeD)
  then have 2: "get_mem \<sigma> k = Some (get m k, \<sigma>)"
    by (cases "getEntry m k") (simp_all add: get_mem_def 1 get_def own)
  have 3: "getSmallestEntry_mem \<sigma> = Some (map_option nid (getSmallestEntry m), \<sigma>)"
  proof (cases "this_root \<sigma>")
    case None
    with h have "root m = Undefined" by (cases "root m") simp_all
    with None show ?thesis by (simp add: getSmallestEntry_mem_def getSmallestEntry_def)
  next
    case (Some a)
    with h have n: "root m \<noteq> Undefined" by auto
    then have "getSmallestNode_loop (root m) \<noteq> None" by simp
    with getSmallestNode_while_holds [of \<sigma> a "root m"] h Some show ?thesis
      by (auto simp: getSmallestEntry_mem_def getSmallestEntry_def)
  qed
  have 4: "getLargestEntry_mem \<sigma> = Some (map_option nid (getLargestEntry m), \<sigma>)"
  proof (cases "this_root \<sigma>")
    case None
    with h have "root m = Undefined" by (cases "root m") simp_all
    with None show ?thesis by (simp add: getLargestEntry_mem_def getLargestEntry_def)
  next
    case (Some a)
    with h have n: "root m \<noteq> Undefined" by auto
    then have "getLargestNode_loop (root m) \<noteq> None" by simp
    with getLargestNode_while_holds [of \<sigma> a "root m"] h Some show ?thesis
      by (auto simp: getLargestEntry_mem_def getLargestEntry_def)
  qed
  have 5: "getRange_mem \<sigma> shape mn mx rv = Some (map nid (getRange m shape mn mx rv), \<sigma>)"
    using getRange_mem_recur_holds [OF h, of shape mn mx rv]
    by (simp add: getRange_mem_def getRange_def c)
  have 9: "iteration_mem \<sigma> = Some (map nid (iterator (root m)), \<sigma>)"
    using iterator_mem_holds [OF h] by (simp add: iteration_mem_def)
  have 6: "keys_mem \<sigma> = Some (keys m, \<sigma>)"
    by (simp add: keys_mem_def 9 keys_def comp_def own)
  have 7: "values_mem \<sigma> = Some (values_of m, \<sigma>)"
    by (simp add: values_mem_def 9 values_of_def comp_def own)
  have 8: "entries_mem \<sigma> = Some (entries m, \<sigma>)"
    by (simp add: entries_mem_def 9 entries_def comp_def own)
  have 10: "reversed_mem \<sigma> = Some (map nid (reversed m), \<sigma>)"
    using iteratorReversed_mem_holds [OF h] by (simp add: reversed_mem_def reversed_def)
  from 1 2 3 4 5 6 7 8 9 10 show ?thesis by blast
qed

theorem queries_leave_memory_witness:
  "models zigzagMemory zigzag \<and>
   getEntry_mem zigzagMemory 2 = Some (Some 2, zigzagMemory) \<and>
   get_mem zigzagMemory 2 = Some (Some 2, zigzagMemory) \<and>
   getSmallestEntry_mem zigzagMemory = Some (Some 1, zigzagMemory) \<and>
   getLargestEntry_mem zigzagMemory = Some (Some 0, zigzagMemory) \<and>
   getRange_mem zigzagMemory numberShape (Bare 2) Unbounded False =
     Some ([2, 0], zigzagMemory) \<and>
   keys_mem zigzagMemory = Some ([1, 2, 3], zigzagMemory) \<and>
   values_mem zigzagMemory = Some ([Some 1, Some 2, Some 3], zigzagMemory) \<and>
   entries_mem zigzagMemory = Some ([(1, Some 1), (2, Some 2), (3, Some 3)], zigzagMemory) \<and>
   iteration_mem zigzagMemory = Some ([1, 2, 0], zigzagMemory) \<and>
   reversed_mem zigzagMemory = Some ([0, 2, 1], zigzagMemory)"
proof -
  have m: "models zigzagMemory zigzag"
    by (simp add: models_def zigzagMemory_def memory_of_def zigzag_root zigzag_fields)
  have r: "getEntry zigzag 2 = Some \<lparr>nid = 2, key = 2, val = Some 2, sortedMap = Some 0,
             depth = 1, nodeCount = 1, balanceFactor = 0\<rparr>"
    "get zigzag 2 = Some 2"
    "map_option nid (getSmallestEntry zigzag) = Some 1"
    "map_option nid (getLargestEntry zigzag) = Some 0"
    "map nid (getRange zigzag numberShape (Bare 2) Unbounded False) = [2, 0]"
    "keys zigzag = [1, 2, 3]"
    "values_of zigzag = [Some 1, Some 2, Some 3]"
    "entries zigzag = [(1, Some 1), (2, Some 2), (3, Some 3)]"
    "map nid (iterator (root zigzag)) = [1, 2, 0]"
    "map nid (reversed zigzag) = [0, 2, 1]"
    by (simp_all add: get_def getEntry_def getNode_def getSmallestEntry_def getLargestEntry_def
        getRange_def keys_def values_of_def entries_def reversed_def zigzag_root zigzag_fields
        tooSmall_def tooBig_def numberShape_def cmpLT_def cmpGT_def)
  from queries_leave_memory [OF m, of 2 numberShape "Bare 2" Unbounded False] m r
  show ?thesis by simp
qed

text \<open>
  C10 (\<open>get\<close> and \<open>getEntry\<close>). \<open>get(k)\<close> is \<open>getEntry(k)?.value\<close>; for an absent key
  it is \<open>undefined\<close>; and after \<open>set(k, undefined)\<close> it is \<open>undefined\<close> too, while
  \<open>getEntry(k)\<close> then returns the entry.
\<close>

theorem get_is_entry_value:
  "get m k = (case getEntry m k of None \<Rightarrow> None | Some e \<Rightarrow> val e) \<and>
   (getEntry m k = None \<longrightarrow> get m k = None) \<and>
   (reach m s \<longrightarrow>
      (\<exists>e m'. set_key m k None True = Inr (e, m') \<and> get m' k = None \<and> getEntry m' k = Some e))"
proof -
  have "reach m s \<longrightarrow>
      (\<exists>e m'. set_key m k None True = Inr (e, m') \<and> get m' k = None \<and> getEntry m' k = Some e)"
  proof
    assume "reach m s"
    from set_then_find [OF this, of k None] show
      "\<exists>e m'. set_key m k None True = Inr (e, m') \<and> get m' k = None \<and> getEntry m' k = Some e"
      by (auto simp: get_def)
  qed
  then show ?thesis by (simp add: get_def)
qed

theorem get_is_entry_value_witness:
  "getEntry sevenKeys 6 = None \<and> get sevenKeys 6 = None \<and> reach sevenKeys () \<and>
   (\<exists>e m'. set_key sevenKeys 6 None True = Inr (e, m') \<and> get m' 6 = None \<and>
      getEntry m' 6 = Some e)"
proof -
  have a: "getEntry sevenKeys 6 = None"
    by (simp add: getEntry_def getNode_def sevenKeys_root sevenKeys_fields cmpLT_def cmpGT_def)
  from get_is_entry_value [of sevenKeys 6 "()"] a reach_sevenKeys [of "()"] show ?thesis by blast
qed


end
